theory Spec2Isabelle
  imports Main "HOL-Library.Char_ord" "HOL-Library.List_Lexorder" "HOL-Library.Product_Lexorder"
    "HOL-Library.AList"
begin

section \<open>Python values and exceptions\<close>

text \<open>
  The exceptions that the modelled part of \<^verbatim>\<open>annotations.py\<close> can raise. A function that
  may raise returns \<open>exn + 'a\<close>, with \<open>Inl\<close> for the exception. \<open>StopIteration\<close> is the
  exception of \<^verbatim>\<open>next\<close> on an exhausted iterator; raised inside a generator body it
  reaches the caller of the generator as \<^verbatim>\<open>RuntimeError\<close> from Python 3.7 on.
\<close>

datatype exn = KeyError | ValueError | IndexError | AttributeError | AssertionError
  | StopIteration

text \<open>
  Where the source compares values of different Python types, the comparison is made on
  this type, whose equality is the structural one Python uses: a tuple is never equal to
  a string, a string never to an integer.
\<close>

datatype pyval = PyStr string | PyInt int | PyTuple "pyval list"

section \<open>IDMaker\<close>

record idmaker =
  counter :: nat
  prefix :: string
  seen :: "string set"
  width :: nat

definition IDMaker :: "string \<Rightarrow> nat \<Rightarrow> idmaker" where
  "IDMaker p w = \<lparr>counter = 0, prefix = p, seen = {}, width = w\<rparr>"

text \<open>The decimal digits of a non-negative integer, as \<^verbatim>\<open>format\<close> writes them.\<close>

fun decimal :: "nat \<Rightarrow> string" where
  "decimal n = (if n < 10 then [char_of (48 + n)]
                else decimal (n div 10) @ [char_of (48 + n mod 10)])"

declare decimal.simps [simp del]

text \<open>\<^verbatim>\<open>'{:0w}'.format(n)\<close>: the digits, padded on the left with zeros to \<open>w\<close> characters.\<close>

definition zero_padded :: "nat \<Rightarrow> nat \<Rightarrow> string" where
  "zero_padded w n = replicate (w - length (decimal n)) CHR ''0'' @ decimal n"

definition fmt_id :: "idmaker \<Rightarrow> string" where
  "fmt_id m = prefix m @ zero_padded (width m) (counter m)"

definition new_id :: "idmaker \<Rightarrow> string \<times> idmaker" where
  "new_id m = (let new = fmt_id m
               in (new, m\<lparr>seen := insert new (seen m), counter := counter m + 1\<rparr>))"

fun next_unique_id :: "string option \<Rightarrow> idmaker \<Rightarrow> string \<times> idmaker" where
  "next_unique_id (Some suggestion) m =
     (if suggestion \<notin> seen m then (suggestion, m\<lparr>seen := insert suggestion (seen m)\<rparr>)
      else new_id m)"
| "next_unique_id None m = new_id m"

text \<open>A sequence of calls on one allocator, with the ids it returns, in order.\<close>

fun issue_all :: "string option list \<Rightarrow> idmaker \<Rightarrow> string list \<times> idmaker" where
  "issue_all [] m = ([], m)"
| "issue_all (s # ss) m =
     (let (i, m') = next_unique_id s m; (is, m'') = issue_all ss m' in (i # is, m''))"

section \<open>FeatureDecoder\<close>

text \<open>The attributes of \<^verbatim>\<open>FeatureDecoder\<close> (the \<^verbatim>\<open>gffkey\<close> of a genome), which are constants.\<close>

definition error_buffer :: int where "error_buffer = 2000"

definition gene :: string where "gene = ''gene''"
definition super_gene :: string where "super_gene = ''super_gene''"
definition ncRNA_gene :: string where "ncRNA_gene = ''ncRNA_gene''"
definition pseudogene :: string where "pseudogene = ''pseudogene''"
definition gene_level :: "string list" where
  "gene_level = [gene, super_gene, ncRNA_gene, pseudogene]"

definition transcribed :: "string list" where
  "transcribed = [''mRNA'', ''transcript'', ''tRNA'', ''primary_transcript'', ''rRNA'', ''miRNA'',
     ''snoRNA'', ''snRNA'', ''SRP_RNA'', ''lnc_RNA'', ''pre_miRNA'', ''RNase_MRP_RNA'',
     ''pseudogenic_transcript'']"

definition exon :: string where "exon = ''exon''"
definition intron :: string where "intron = ''intron''"
definition sub_transcribed :: "string list" where "sub_transcribed = [exon, intron]"

definition cds :: string where "cds = ''CDS''"
definition five_prime_UTR :: string where "five_prime_UTR = ''five_prime_UTR''"
definition three_prime_UTR :: string where "three_prime_UTR = ''three_prime_UTR''"
definition coding_info :: "string list" where
  "coding_info = [cds, five_prime_UTR, three_prime_UTR]"

definition TSS :: string where "TSS = ''TSS''"
definition TTS :: string where "TTS = ''TTS''"
definition start_codon :: string where "start_codon = ''start_codon''"
definition stop_codon :: string where "stop_codon = ''stop_codon''"
definition donor_splice_site :: string where "donor_splice_site = ''donor_splice_site''"
definition acceptor_splice_site :: string where
  "acceptor_splice_site = ''acceptor_splice_site''"
definition trans_donor_splice_site :: string where
  "trans_donor_splice_site = ''trans_donor_splice_site''"
definition trans_acceptor_splice_site :: string where
  "trans_acceptor_splice_site = ''trans_acceptor_splice_site''"
definition point_annotations :: "string list" where
  "point_annotations = [TSS, TTS, start_codon, stop_codon, donor_splice_site,
     acceptor_splice_site, trans_donor_splice_site, trans_acceptor_splice_site]"

definition regions :: "string list" where
  "regions = [''region'', ''chromosome'', ''supercontig'']"

definition ignorable :: "string list" where "ignorable = [''match'', ''cDNA_match'']"

definition error :: string where "error = ''error''"
definition status_coding :: string where "status_coding = ''status_coding''"
definition status_intron :: string where "status_intron = ''status_intron''"
definition status_five_prime_UTR :: string where
  "status_five_prime_UTR = ''status_five_prime_UTR''"
definition status_three_prime_UTR :: string where
  "status_three_prime_UTR = ''status_three_prime_UTR''"
definition status_intergenic :: string where "status_intergenic = ''status_intergenic''"
definition statuses :: "string list" where
  "statuses = [status_coding, status_intron, status_five_prime_UTR, status_three_prime_UTR,
     status_intergenic]"

definition on_sequence :: "string list" where
  "on_sequence = sub_transcribed @ coding_info @ point_annotations"

definition known :: "string list" where
  "known = gene_level @ transcribed @ sub_transcribed @ coding_info @ point_annotations
     @ regions @ ignorable @ [error] @ statuses"

section \<open>Records of the annotation file\<close>

text \<open>
  One entry as \<^verbatim>\<open>gffhelper.read_gff_file\<close> hands it over: the columns that the code reads,
  the value of \<^verbatim>\<open>get_ID()\<close> (\<open>None\<close> without an ID attribute) and the list of
  \<^verbatim>\<open>get_Parent()\<close>. The score column, a float, is read by no operation modelled here and
  is left out.
\<close>

record gff_entry =
  e_type :: string
  e_ID :: "string option"
  e_Parent :: "string list"
  e_seqid :: string
  e_start :: int
  e_end :: int
  e_strand :: string
  e_source :: string

section \<open>AnnotatedGenome: filtering and grouping the entries\<close>

text \<open>
  A generator is modelled by the list of the values it yields and the exception that
  ends it, if one does. \<open>useful_gff_entries\<close> walks the entries of the reader.
\<close>

definition skipable :: "string list" where "skipable = regions @ ignorable"

fun useful_gff_entries :: "gff_entry list \<Rightarrow> gff_entry list \<times> exn option" where
  "useful_gff_entries [] = ([], None)"
| "useful_gff_entries (entry # reader) =
     (if e_type entry \<notin> set known then ([], Some ValueError)
      else let (ys, r) = useful_gff_entries reader
           in if e_type entry \<notin> set skipable then (entry # ys, r) else (ys, r))"

text \<open>
  The loop of \<open>group_gff_by_gene\<close> over the rest of the reader: the group being filled,
  the entries the reader still yields and the exception that ends the reader. The group
  in hand is yielded after the loop, which an exception of the reader never reaches.
\<close>

fun group_loop ::
  "gff_entry list \<Rightarrow> gff_entry list \<Rightarrow> exn option \<Rightarrow> gff_entry list list \<times> exn option" where
  "group_loop gene_group [] r =
     (case r of None \<Rightarrow> ([gene_group], None) | Some e \<Rightarrow> ([], Some e))"
| "group_loop gene_group (entry # reader) r =
     (if e_type entry = ''gene''
      then let (gs, r') = group_loop [entry] reader r in (gene_group # gs, r')
      else group_loop (gene_group @ [entry]) reader r)"

text \<open>
  \<^verbatim>\<open>gene_group = [next(reader)]\<close> is the first step: on a reader that yields nothing,
  \<^verbatim>\<open>next\<close> raises.
\<close>

definition group_gff_by_gene :: "gff_entry list \<Rightarrow> gff_entry list list \<times> exn option" where
  "group_gff_by_gene gff_file =
     (case useful_gff_entries gff_file of
        ([], None) \<Rightarrow> ([], Some StopIteration)
      | ([], Some e) \<Rightarrow> ([], Some e)
      | (first # reader, r) \<Rightarrow> group_loop [first] reader r)"

text \<open>
  The grouping as the specification words it: every record of a gene-level type starts
  a group, so no group holds such a record after its first one.
\<close>

definition gene_level_starts_group :: "gff_entry list list \<Rightarrow> bool" where
  "gene_level_starts_group groups =
     list_all (\<lambda>g. list_all (\<lambda>e. e_type e \<notin> set gene_level) (tl g)) groups"

definition entry_of_type :: "string \<Rightarrow> string \<Rightarrow> gff_entry" where
  "entry_of_type ty i = \<lparr>e_type = ty, e_ID = Some i, e_Parent = [], e_seqid = ''chr1'',
     e_start = 1, e_end = 100, e_strand = ''+'', e_source = ''src''\<rparr>"

section \<open>The entity graph\<close>

text \<open>
  \<^verbatim>\<open>StructuredFeature\<close>, \<^verbatim>\<open>Transcribed\<close> and \<^verbatim>\<open>SuperLoci\<close> with the attributes their
  constructors set (the float \<^verbatim>\<open>score\<close> and the export list \<^verbatim>\<open>spec\<close> apart, which no
  operation modelled here reads). A Python dict is an association list with distinct
  keys, in insertion order: \<open>map_of\<close> reads it, \<open>AList.update\<close> assigns to a key,
  \<open>AList.delete\<close> pops one and \<open>AList.map_entry\<close> changes the object stored under a key
  in place. The two maps of a SuperLoci are the store of its objects: a feature or a
  transcript is referred to by its key (the cached placeholder transcript apart, see
  \<open>dummy_ref\<close>), and one SuperLoci is looked at on its own, so
  the back-reference \<^verbatim>\<open>super_loci\<close> of a feature is either unset (\<^verbatim>\<open>None\<close>, as the
  constructor leaves it) or this SuperLoci, and the genome's two allocators are carried
  in the SuperLoci.
\<close>

datatype owner = NoOwner | ThisLocus

record feature =
  f_id :: string
  f_type :: string
  f_is_partial :: bool
  f_is_reconstructed :: bool
  f_is_type_in_question :: bool
  f_start :: int
  f_end :: int
  f_seqid :: string
  f_strand :: string
  f_frame :: string
  f_source :: string
  f_transcripts :: "string option list"
  f_super_loci :: owner

definition StructuredFeature :: feature where
  "StructuredFeature = \<lparr>f_id = [], f_type = [], f_is_partial = False,
     f_is_reconstructed = False, f_is_type_in_question = False, f_start = - 1, f_end = - 1,
     f_seqid = [], f_strand = ''.'', f_frame = ''.'', f_source = [], f_transcripts = [],
     f_super_loci = NoOwner\<rparr>"

record transcript =
  t_id :: "string option"
  t_type :: string
  t_is_partial :: bool
  t_is_reconstructed :: bool
  t_is_type_in_question :: bool
  t_features :: "string list"

definition Transcribed :: transcript where
  "Transcribed = \<lparr>t_id = Some [], t_type = [], t_is_partial = False,
     t_is_reconstructed = False, t_is_type_in_question = False, t_features = []\<rparr>"

record genome =
  transcript_ider :: idmaker
  feature_ider :: idmaker

text \<open>
  The placeholder transcript that \<open>dummy_transcript\<close> caches is an object of its own. As
  long as the map of transcripts holds it, it is referred to by its key (\<open>InMap\<close>), and
  what is done to the transcript under that key is done to it. A transcript record with
  the same id replaces it in the map; from then on the cached placeholder lives outside
  the map (\<open>Orphan\<close>), with the features it has been linked to, while lookups of its id
  find the transcript of the record.
\<close>

datatype dummy_ref = InMap string | Orphan transcript

record superloci =
  sl_id :: "string option"
  sl_type :: string
  sl_transcripts :: "(string option \<times> transcript) list"
  sl_features :: "(string \<times> feature) list"
  sl_ids :: "string option list"
  sl_dummy_transcript :: "dummy_ref option"
  sl_genome :: genome

definition AnnotatedGenome :: genome where
  "AnnotatedGenome = \<lparr>transcript_ider = IDMaker ''trx'' 6, feature_ider = IDMaker ''ftr'' 6\<rparr>"

definition SuperLoci :: "genome \<Rightarrow> superloci" where
  "SuperLoci g = \<lparr>sl_id = Some [], sl_type = [], sl_transcripts = [], sl_features = [],
     sl_ids = [], sl_dummy_transcript = None, sl_genome = g\<rparr>"

subsection \<open>Transcribed\<close>

definition link_to_feature :: "string \<Rightarrow> transcript \<Rightarrow> transcript" where
  "link_to_feature feature_id t = t\<lparr>t_features := t_features t @ [feature_id]\<rparr>"

text \<open>\<^verbatim>\<open>list.index\<close> raises \<^verbatim>\<open>ValueError\<close> when the value is not in the list.\<close>

definition remove_feature :: "string \<Rightarrow> transcript \<Rightarrow> exn + transcript" where
  "remove_feature feature_id t =
     (if feature_id \<in> set (t_features t)
      then Inr (t\<lparr>t_features := remove1 feature_id (t_features t)\<rparr>)
      else Inl ValueError)"

subsection \<open>SuperLoci.dummy\_transcript\<close>

definition dummy_transcript :: "superloci \<Rightarrow> dummy_ref \<times> superloci" where
  "dummy_transcript sl =
     (case sl_dummy_transcript sl of
        Some r \<Rightarrow> (r, sl)
      | None \<Rightarrow>
          let (i, ider) = next_unique_id None (transcript_ider (sl_genome sl));
              t = Transcribed\<lparr>t_id := Some i\<rparr>
          in (InMap i, sl\<lparr>sl_dummy_transcript := Some (InMap i),
                          sl_transcripts := AList.update (Some i) t (sl_transcripts sl),
                          sl_genome := (sl_genome sl)\<lparr>transcript_ider := ider\<rparr>\<rparr>))"

text \<open>
  \<^verbatim>\<open>self.transcripts[key] = transcript\<close> for the transcript of a record: when the object
  stored under the key so far is the cached placeholder, the placeholder leaves the map
  as it is at that moment.
\<close>

definition assign_transcript :: "string option \<Rightarrow> transcript \<Rightarrow> superloci \<Rightarrow> superloci" where
  "assign_transcript key t sl =
     (let kept = (case sl_dummy_transcript sl of
                    Some (InMap k) \<Rightarrow>
                      (if key = Some k
                       then (case map_of (sl_transcripts sl) key of
                               Some d \<Rightarrow> Some (Orphan d)
                             | None \<Rightarrow> Some (InMap k))
                       else Some (InMap k))
                  | r \<Rightarrow> r)
      in sl\<lparr>sl_dummy_transcript := kept,
            sl_transcripts := AList.update key t (sl_transcripts sl)\<rparr>)"

subsection \<open>StructuredFeature\<close>

text \<open>
  The methods of a feature take the feature and the SuperLoci it refers to and return
  both as they are after the call. \<^verbatim>\<open>self.super_loci.transcripts\<close> on an unset
  back-reference raises \<^verbatim>\<open>AttributeError\<close>, a key that the map of transcripts does not
  hold raises \<^verbatim>\<open>KeyError\<close>.
\<close>

definition link_to_transcript_and_back ::
  "string option \<Rightarrow> feature \<Rightarrow> superloci \<Rightarrow> exn + feature \<times> superloci" where
  "link_to_transcript_and_back transcript_id self sl =
     (case f_super_loci self of
        NoOwner \<Rightarrow> Inl AttributeError
      | ThisLocus \<Rightarrow>
          (case map_of (sl_transcripts sl) transcript_id of
             None \<Rightarrow> Inl KeyError
           | Some transcript \<Rightarrow>
               Inr (self\<lparr>f_transcripts := f_transcripts self @ [transcript_id]\<rparr>,
                    sl\<lparr>sl_transcripts := AList.map_entry transcript_id
                          (link_to_feature (f_id self)) (sl_transcripts sl)\<rparr>)))"

definition de_link_from_transcript ::
  "string option \<Rightarrow> feature \<Rightarrow> superloci \<Rightarrow> exn + feature \<times> superloci" where
  "de_link_from_transcript transcript_id self sl =
     (case f_super_loci self of
        NoOwner \<Rightarrow> Inl AttributeError
      | ThisLocus \<Rightarrow>
          (case map_of (sl_transcripts sl) transcript_id of
             None \<Rightarrow> Inl KeyError
           | Some transcript \<Rightarrow>
               (case remove_feature (f_id self) transcript of
                  Inl e \<Rightarrow> Inl e
                | Inr transcript' \<Rightarrow>
                    if transcript_id \<in> set (f_transcripts self)
                    then Inr (self\<lparr>f_transcripts := remove1 transcript_id (f_transcripts self)\<rparr>,
                              sl\<lparr>sl_transcripts := AList.map_entry transcript_id
                                    (\<lambda>_. transcript') (sl_transcripts sl)\<rparr>)
                    else Inl ValueError)))"

text \<open>
  The loop of \<open>add_data\<close> over the declared parents. In the \<^verbatim>\<open>try\<close> block the lookup of
  the parent either links the feature or raises the \<^verbatim>\<open>KeyError\<close> that the \<^verbatim>\<open>except\<close>
  block handles; \<open>link_to_transcript_and_back\<close> follows the block, outside it.
\<close>

fun add_data_parents :: "string list \<Rightarrow> feature \<Rightarrow> superloci \<Rightarrow> exn + feature \<times> superloci" where
  "add_data_parents [] self sl = Inr (self, sl)"
| "add_data_parents (transcript_id # rest) self sl =
     (let (new_t_id, self1, sl1) =
        (case map_of (sl_transcripts sl) (Some transcript_id) of
           Some transcript \<Rightarrow>
             (Some transcript_id, self,
              sl\<lparr>sl_transcripts := AList.map_entry (Some transcript_id)
                    (link_to_feature (f_id self)) (sl_transcripts sl)\<rparr>)
         | None \<Rightarrow>
             if Some transcript_id = sl_id sl
             then let (r, sl') = dummy_transcript sl
                  in (case r of
                        InMap k \<Rightarrow>
                          (Some k, self,
                           sl'\<lparr>sl_transcripts := AList.map_entry (Some k)
                                  (link_to_feature (f_id self)) (sl_transcripts sl')\<rparr>)
                      | Orphan d \<Rightarrow>
                          (t_id d, self,
                           sl'\<lparr>sl_dummy_transcript :=
                                  Some (Orphan (link_to_feature (f_id self) d))\<rparr>))
             else (None, self\<lparr>f_type := error\<rparr>, sl))
      in case link_to_transcript_and_back new_t_id self1 sl1 of
           Inl e \<Rightarrow> Inl e
         | Inr (self2, sl2) \<Rightarrow> add_data_parents rest self2 sl2)"

definition add_data :: "feature \<Rightarrow> superloci \<Rightarrow> gff_entry \<Rightarrow> exn + feature \<times> superloci" where
  "add_data self super_loci gff_entry =
     (let fid = e_ID gff_entry;
          (i, ider) = next_unique_id fid (feature_ider (sl_genome super_loci));
          sl = super_loci\<lparr>sl_genome := (sl_genome super_loci)\<lparr>feature_ider := ider\<rparr>\<rparr>;
          self1 = self\<lparr>f_id := i, f_type := e_type gff_entry, f_start := e_start gff_entry,
                    f_end := e_end gff_entry, f_strand := e_strand gff_entry,
                    f_seqid := e_seqid gff_entry, f_super_loci := ThisLocus\<rparr>;
          new_transcripts = e_Parent gff_entry;
          self2 = (if new_transcripts = [] then self1\<lparr>f_type := error\<rparr> else self1)
      in add_data_parents new_transcripts self2 sl)"

definition fully_overlaps :: "feature \<Rightarrow> feature \<Rightarrow> bool" where
  "fully_overlaps self other =
     (let does_it_match = [f_type self = f_type other, f_start self = f_start other,
            f_end self = f_end other, f_seqid self = f_seqid other,
            f_strand self = f_strand other, f_frame self = f_frame other];
          same_gene = (f_super_loci self = f_super_loci other)
      in if list_all id (does_it_match @ [same_gene]) then True else False)"

definition is_contained_in :: "feature \<Rightarrow> feature \<Rightarrow> bool" where
  "is_contained_in self other =
     (let does_it_match = [f_seqid self = f_seqid other, f_strand self = f_strand other,
            f_frame self = f_frame other];
          same_gene = (f_super_loci self = f_super_loci other);
          coordinates_within = (f_start self \<ge> f_start other \<and> f_end self \<le> f_end other)
      in list_all id (does_it_match @ [coordinates_within, same_gene]))"

fun clone_links :: "string option list \<Rightarrow> feature \<Rightarrow> superloci \<Rightarrow> exn + feature \<times> superloci" where
  "clone_links [] new sl = Inr (new, sl)"
| "clone_links (transcript # rest) new sl =
     (case link_to_transcript_and_back transcript new sl of
        Inl e \<Rightarrow> Inl e
      | Inr (new', sl') \<Rightarrow> clone_links rest new' sl')"

definition clone :: "feature \<Rightarrow> bool \<Rightarrow> superloci \<Rightarrow> exn + feature \<times> superloci" where
  "clone self copy_transcripts sl =
     (case f_super_loci self of
        NoOwner \<Rightarrow> Inl AttributeError
      | ThisLocus \<Rightarrow>
          let (i, ider) = next_unique_id None (feature_ider (sl_genome sl));
              sl1 = sl\<lparr>sl_genome := (sl_genome sl)\<lparr>feature_ider := ider\<rparr>\<rparr>;
              new = StructuredFeature\<lparr>f_super_loci := f_super_loci self, f_id := i\<rparr>
          in case clone_links (if copy_transcripts then f_transcripts self else []) new sl1 of
               Inl e \<Rightarrow> Inl e
             | Inr (new', sl2) \<Rightarrow>
                 Inr (new'\<lparr>f_type := f_type self, f_is_partial := f_is_partial self,
                        f_is_reconstructed := f_is_reconstructed self,
                        f_is_type_in_question := f_is_type_in_question self,
                        f_start := f_start self, f_end := f_end self, f_seqid := f_seqid self,
                        f_strand := f_strand self, f_frame := f_frame self,
                        f_source := f_source self\<rparr>, sl2))"

definition reconstruct_exon :: "feature \<Rightarrow> superloci \<Rightarrow> exn + feature \<times> superloci" where
  "reconstruct_exon self sl =
     (case clone self True sl of
        Inl e \<Rightarrow> Inl e
      | Inr (ex, sl') \<Rightarrow> Inr (ex\<lparr>f_type := exon\<rparr>, sl'))"

text \<open>
  \<open>merge\<close> walks a copy of the other feature's transcript list; \<open>self\<close> and \<open>other\<close> are
  two objects (the \<^verbatim>\<open>assert\<close> of the method), stored under two keys of the feature map.
\<close>

fun merge_loop ::
  "string option list \<Rightarrow> feature \<Rightarrow> feature \<Rightarrow> superloci \<Rightarrow> exn + feature \<times> feature \<times> superloci" where
  "merge_loop [] self other sl = Inr (self, other, sl)"
| "merge_loop (transcript_id # rest) self other sl =
     (case link_to_transcript_and_back transcript_id self sl of
        Inl e \<Rightarrow> Inl e
      | Inr (self', sl') \<Rightarrow>
          (case de_link_from_transcript transcript_id other sl' of
             Inl e \<Rightarrow> Inl e
           | Inr (other', sl'') \<Rightarrow> merge_loop rest self' other' sl''))"

definition merge :: "feature \<Rightarrow> feature \<Rightarrow> superloci \<Rightarrow> exn + feature \<times> feature \<times> superloci" where
  "merge self other sl = merge_loop (f_transcripts other) self other sl"

subsection \<open>SuperLoci.collapse\_identical\_features\<close>

text \<open>
  The \<^verbatim>\<open>for\<close> loop over \<^verbatim>\<open>range(i + 1, len(feature_keys))\<close>: \<open>k\<close> is the key of
  \<^verbatim>\<open>feature\<close>, which the loop keeps in hand and which the store holds under \<open>k\<close>;
  a merge changes the feature in both. The keys still to visit come from the sorted
  snapshot.
\<close>

fun collapse_inner :: "string \<Rightarrow> feature \<Rightarrow> string list \<Rightarrow> superloci \<Rightarrow> exn + superloci" where
  "collapse_inner k feature [] sl = Inr sl"
| "collapse_inner k feature (o_key # rest) sl =
     (case map_of (sl_features sl) o_key of
        None \<Rightarrow> Inl KeyError
      | Some other \<Rightarrow>
          if fully_overlaps feature other
          then (case merge feature other sl of
                  Inl e \<Rightarrow> Inl e
                | Inr (feature', other', sl') \<Rightarrow>
                    collapse_inner k feature' rest
                      (sl'\<lparr>sl_features := AList.delete o_key
                             (AList.map_entry k (\<lambda>_. feature') (sl_features sl'))\<rparr>))
          else collapse_inner k feature rest sl)"

text \<open>
  The \<^verbatim>\<open>while\<close> loop: the keys are sorted anew in every round, and the round compares
  the feature at position \<open>i\<close> with all later ones. A round never adds a key, which is
  why the loop ends. The keys are strings, ordered as Python orders them: by character
  code, lexicographically.
\<close>

function collapse_loop :: "nat \<Rightarrow> superloci \<Rightarrow> exn + superloci" where
  "collapse_loop i sl =
     (if int i < int (length (sl_features sl)) - 1
      then let feature_keys = sort (map fst (sl_features sl))
           in (case map_of (sl_features sl) (feature_keys ! i) of
                 None \<Rightarrow> Inl KeyError
               | Some feature \<Rightarrow>
                   (case collapse_inner (feature_keys ! i) feature
                           (drop (i + 1) feature_keys) sl of
                      Inl e \<Rightarrow> Inl e
                    | Inr sl' \<Rightarrow> collapse_loop (i + 1) sl'))
      else Inr sl)"
  by pat_completeness auto
termination
proof (relation "measure (\<lambda>(i, sl). length (sl_features sl) - i)")
  show "wf (measure (\<lambda>(i, sl). length (sl_features sl) - i))" by simp
next
  fix i :: nat and sl sl' :: superloci and feature_keys :: "string list" and feature :: feature
  assume guard: "int i < int (length (sl_features sl)) - 1"
    and run: "collapse_inner (feature_keys ! i) feature (drop (i + 1) feature_keys) sl = Inr sl'"
  have link: "sl_features s' = sl_features s"
    if "link_to_transcript_and_back t f s = Inr (f', s')" for t f s f' s'
    using that
    by (auto simp: link_to_transcript_and_back_def split: owner.splits option.splits)
  have delink: "sl_features s' = sl_features s"
    if "de_link_from_transcript t f s = Inr (f', s')" for t f s f' s'
    using that
    by (auto simp: de_link_from_transcript_def
        split: owner.splits option.splits sum.splits if_splits)
  have mrg: "sl_features s' = sl_features s"
    if "merge_loop ts f g s = Inr (f', g', s')" for ts f g s f' g' s'
    using that
  proof (induction ts arbitrary: f g s)
    case Nil
    then show ?case by simp
  next
    case (Cons t ts)
    from Cons.prems obtain f1 s1 g1 s2 where
      a: "link_to_transcript_and_back t f s = Inr (f1, s1)" and
      b: "de_link_from_transcript t g s1 = Inr (g1, s2)" and
      c: "merge_loop ts f1 g1 s2 = Inr (f', g', s')"
      by (auto split: sum.splits)
    show ?case using Cons.IH [OF c] link [OF a] delink [OF b] by simp
  qed
  have inner: "length (sl_features s') \<le> length (sl_features s)"
    if "collapse_inner k f os s = Inr s'" for k f os s s'
    using that
  proof (induction os arbitrary: f s)
    case Nil
    then show ?case by simp
  next
    case (Cons o_key os)
    from Cons.prems obtain other where
      lk: "map_of (sl_features s) o_key = Some other"
      by (auto split: option.splits)
    show ?case
    proof (cases "fully_overlaps f other")
      case True
      with Cons.prems lk obtain f1 g1 s1 where
        m: "merge f other s = Inr (f1, g1, s1)" and
        r: "collapse_inner k f1 os (s1\<lparr>sl_features := AList.delete o_key
              (AList.map_entry k (\<lambda>_. f1) (sl_features s1))\<rparr>) = Inr s'"
        by (auto split: sum.splits)
      have "sl_features s1 = sl_features s" using m mrg by (simp add: merge_def)
      moreover have "length (AList.map_entry k g xs) = length xs"
        for g :: "feature \<Rightarrow> feature" and xs
        by (induction xs) auto
      then have "length (AList.delete o_key (AList.map_entry k (\<lambda>_. f1) (sl_features s1)))
          \<le> length (sl_features s1)"
        using length_delete_le [of o_key "AList.map_entry k (\<lambda>_. f1) (sl_features s1)"]
        by simp
      ultimately show ?thesis using Cons.IH [OF r] by simp
    next
      case False
      with Cons.prems lk have "collapse_inner k f os s = Inr s'" by simp
      then show ?thesis by (rule Cons.IH)
    qed
  qed
  have "length (sl_features sl') \<le> length (sl_features sl)" using run by (rule inner)
  then show "((i + 1, sl'), (i, sl)) \<in> measure (\<lambda>(i, sl). length (sl_features sl) - i)"
    using guard by simp
qed

declare collapse_loop.simps [simp del]

definition collapse_identical_features :: "superloci \<Rightarrow> exn + superloci" where
  "collapse_identical_features sl = collapse_loop 0 sl"

text \<open>
  What \<open>fully_overlaps\<close> compares, and the view of a locus that the proofs about the
  collapse use: its keys and the compared attributes of the feature under a key.
\<close>

definition signature :: "feature \<Rightarrow> string \<times> int \<times> int \<times> string \<times> string \<times> string \<times> owner" where
  "signature f = (f_type f, f_start f, f_end f, f_seqid f, f_strand f, f_frame f, f_super_loci f)"

definition keys :: "superloci \<Rightarrow> string list" where
  "keys sl = map fst (sl_features sl)"

definition sgm :: "superloci \<Rightarrow> string \<Rightarrow> (string \<times> int \<times> int \<times> string \<times> string \<times> string \<times> owner) option" where
  "sgm sl = map_of (map (apsnd signature) (sl_features sl))"

definition uniq :: "superloci \<Rightarrow> string \<Rightarrow> bool" where
  "uniq sl x = (\<forall>y\<in>set (keys sl). y \<noteq> x \<longrightarrow> sgm sl y \<noteq> sgm sl x)"

subsection \<open>SuperLoci.maybe\_reconstruct\_exons\<close>

text \<open>
  The two list comprehensions walk the feature map in the order of its keys. The loop
  collects the new exons, and the exons looked at are those of before the loop.
\<close>

definition exons :: "superloci \<Rightarrow> feature list" where
  "exons sl = [f \<leftarrow> map snd (sl_features sl). f_type f = exon]"

definition coding_info_features :: "superloci \<Rightarrow> feature list" where
  "coding_info_features sl = [f \<leftarrow> map snd (sl_features sl). f_type f \<in> set coding_info]"

fun reconstruct_loop ::
  "feature list \<Rightarrow> feature list \<Rightarrow> feature list \<Rightarrow> superloci \<Rightarrow> exn + feature list \<times> superloci" where
  "reconstruct_loop exs [] new_exons sl = Inr (new_exons, sl)"
| "reconstruct_loop exs (f # fs) new_exons sl =
     (if \<not> list_ex (\<lambda>ex. is_contained_in f ex) exs
      then (case reconstruct_exon f sl of
              Inl e \<Rightarrow> Inl e
            | Inr (ex, sl') \<Rightarrow> reconstruct_loop exs fs (new_exons @ [ex]) sl')
      else reconstruct_loop exs fs new_exons sl)"

definition maybe_reconstruct_exons :: "superloci \<Rightarrow> exn + superloci" where
  "maybe_reconstruct_exons sl =
     (case reconstruct_loop (exons sl) (coding_info_features sl) [] sl of
        Inl e \<Rightarrow> Inl e
      | Inr (new_exons, sl') \<Rightarrow>
          Inr (sl'\<lparr>sl_features :=
                 fold (\<lambda>e. AList.update (f_id e) e) new_exons (sl_features sl')\<rparr>))"

text \<open>
  What the docstring of \<open>maybe_reconstruct_exons\<close> promises: every feature of a coding-info
  type of the locus is contained in an exon of the locus.
\<close>

definition coding_contained :: "superloci \<Rightarrow> bool" where
  "coding_contained sl =
     list_all (\<lambda>f. list_ex (\<lambda>ex. is_contained_in f ex) (exons sl)) (coding_info_features sl)"

subsection \<open>SuperLoci.add\_gff\_entry\<close>

definition one_parent :: "gff_entry \<Rightarrow> exn + string" where
  "one_parent entry = (case e_Parent entry of [p] \<Rightarrow> Inr p | _ \<Rightarrow> Inl AssertionError)"

definition add_gff_entry :: "superloci \<Rightarrow> gff_entry \<Rightarrow> exn + superloci" where
  "add_gff_entry sl entry =
     (if e_type entry = gene
      then Inr (sl\<lparr>sl_type := gene, sl_id := e_ID entry, sl_ids := sl_ids sl @ [e_ID entry]\<rparr>)
      else if e_type entry \<in> set transcribed
      then (case one_parent entry of
              Inl e \<Rightarrow> Inl e
            | Inr parent \<Rightarrow>
                if Some parent = sl_id sl
                then Inr (assign_transcript (e_ID entry)
                            (Transcribed\<lparr>t_id := e_ID entry, t_type := e_type entry\<rparr>) sl)
                else Inl AssertionError)
      else if e_type entry \<in> set on_sequence
      then (case add_data StructuredFeature sl entry of
              Inl e \<Rightarrow> Inl e
            | Inr (feature, sl') \<Rightarrow>
                Inr (sl'\<lparr>sl_features := AList.update (f_id feature) feature (sl_features sl')\<rparr>))
      else Inr sl)"

fun add_gff_entries :: "superloci \<Rightarrow> gff_entry list \<Rightarrow> exn + superloci" where
  "add_gff_entries sl [] = Inr sl"
| "add_gff_entries sl (entry # entries) =
     (case add_gff_entry sl entry of Inl e \<Rightarrow> Inl e | Inr sl' \<Rightarrow> add_gff_entries sl' entries)"

section \<open>Example loci\<close>

subsection \<open>A locus after its gene and transcript records\<close>

text \<open>
  The SuperLoci that \<^verbatim>\<open>add_gff_entry\<close> has built from a gene record \<^verbatim>\<open>g1\<close> and an mRNA
  record \<^verbatim>\<open>t1\<close> with parent \<^verbatim>\<open>g1\<close>, in a fresh genome, and a record of a sub-feature.
\<close>

definition locus_g1 :: superloci where
  "locus_g1 = (SuperLoci AnnotatedGenome)\<lparr>sl_id := Some ''g1'', sl_type := gene,
     sl_transcripts := [(Some ''t1'', Transcribed\<lparr>t_id := Some ''t1'', t_type := ''mRNA''\<rparr>)],
     sl_ids := [Some ''g1'']\<rparr>"

definition sub_entry :: "string \<Rightarrow> string \<Rightarrow> string list \<Rightarrow> int \<Rightarrow> int \<Rightarrow> gff_entry" where
  "sub_entry ty i parents s e = \<lparr>e_type = ty, e_ID = Some i, e_Parent = parents,
     e_seqid = ''chr1'', e_start = s, e_end = e, e_strand = ''+'', e_source = ''src''\<rparr>"

subsection \<open>A locus with two identical exons\<close>

text \<open>
  The locus \<^verbatim>\<open>g1\<close> after two exon records \<^verbatim>\<open>e1\<close> and \<^verbatim>\<open>e2\<close> of the same span, both with
  parent \<^verbatim>\<open>t1\<close>, and the same locus after the collapse of identical features.
\<close>

definition exon_1_100 :: "string \<Rightarrow> feature" where
  "exon_1_100 i = StructuredFeature\<lparr>f_id := i, f_type := exon, f_start := 1, f_end := 100,
     f_seqid := ''chr1'', f_strand := ''+'', f_transcripts := [Some ''t1''],
     f_super_loci := ThisLocus\<rparr>"

definition locus_dup :: superloci where
  "locus_dup = locus_g1\<lparr>
     sl_transcripts := [(Some ''t1'', Transcribed\<lparr>t_id := Some ''t1'', t_type := ''mRNA'',
        t_features := [''e1'', ''e1'', ''e2'', ''e2'']\<rparr>)],
     sl_features := [(''e1'', exon_1_100 ''e1''), (''e2'', exon_1_100 ''e2'')],
     sl_genome := AnnotatedGenome\<lparr>feature_ider :=
        (IDMaker ''ftr'' 6)\<lparr>seen := {''e1'', ''e2''}\<rparr>\<rparr>\<rparr>"

definition locus_dup_collapsed :: superloci where
  "locus_dup_collapsed = locus_dup\<lparr>
     sl_transcripts := [(Some ''t1'', Transcribed\<lparr>t_id := Some ''t1'', t_type := ''mRNA'',
        t_features := [''e1'', ''e1'', ''e2'', ''e1'']\<rparr>)],
     sl_features := [(''e1'', (exon_1_100 ''e1'')\<lparr>f_transcripts := [Some ''t1'', Some ''t1'']\<rparr>)]\<rparr>"

subsection \<open>A locus with an exon whose id looks like a synthesized one\<close>

text \<open>
  The locus \<^verbatim>\<open>g1\<close> after three records with parent \<^verbatim>\<open>t1\<close>: an exon with the id
  \<^verbatim>\<open>ftr000000\<close> over 1-100, a 5' UTR \<^verbatim>\<open>u1\<close> over 1-50 inside it, and a CDS \<^verbatim>\<open>c1\<close> over
  150-200 that no exon covers.
\<close>

definition ingested :: "string \<Rightarrow> string \<Rightarrow> int \<Rightarrow> int \<Rightarrow> feature" where
  "ingested ty i s e = StructuredFeature\<lparr>f_id := i, f_type := ty, f_start := s, f_end := e,
     f_seqid := ''chr1'', f_strand := ''+'', f_transcripts := [Some ''t1''],
     f_super_loci := ThisLocus\<rparr>"

definition locus_ftr :: superloci where
  "locus_ftr = locus_g1\<lparr>
     sl_transcripts := [(Some ''t1'', Transcribed\<lparr>t_id := Some ''t1'', t_type := ''mRNA'',
        t_features := [''ftr000000'', ''ftr000000'', ''u1'', ''u1'', ''c1'', ''c1'']\<rparr>)],
     sl_features := [(''ftr000000'', ingested exon ''ftr000000'' 1 100),
        (''u1'', ingested five_prime_UTR ''u1'' 1 50), (''c1'', ingested cds ''c1'' 150 200)],
     sl_genome := AnnotatedGenome\<lparr>feature_ider :=
        (IDMaker ''ftr'' 6)\<lparr>seen := {''ftr000000'', ''u1'', ''c1''}\<rparr>\<rparr>\<rparr>"

section \<open>TranscriptInterpreter\<close>

subsection \<open>The interval tree\<close>

text \<open>
  Modelled from the spec: the third-party package \<^verbatim>\<open>intervaltree\<close> (\<^verbatim>\<open>IntervalTree\<close>,
  \<^verbatim>\<open>Interval\<close>, \<^verbatim>\<open>split_overlaps\<close>, the order of intervals) is not part of the sources.
  The specification's words are: an interval structure of 0-based half-open intervals,
  in which splitting cuts every overlapping interval at all contained boundary points,
  and whose intervals are then read in ascending coordinate order. The tree is a set of
  intervals, here a list without duplicates; a slice assignment adds an interval and
  refuses an empty one with \<^verbatim>\<open>ValueError\<close>; \<open>split_overlaps\<close> replaces every interval by
  its pieces between consecutive boundary points; \<open>sorted_tree\<close> orders by begin and end,
  and intervals of the same extent keep the order the set gives them.
\<close>

record interval =
  iv_begin :: int
  iv_end :: int
  iv_data :: feature

definition tree_add :: "int \<Rightarrow> int \<Rightarrow> feature \<Rightarrow> interval list \<Rightarrow> exn + interval list" where
  "tree_add b e d tree =
     (if b \<ge> e then Inl ValueError
      else let iv = \<lparr>iv_begin = b, iv_end = e, iv_data = d\<rparr>
           in Inr (if iv \<in> set tree then tree else tree @ [iv]))"

definition boundaries :: "interval list \<Rightarrow> int list" where
  "boundaries tree = sort (remdups (concat (map (\<lambda>iv. [iv_begin iv, iv_end iv]) tree)))"

definition split_overlaps :: "interval list \<Rightarrow> interval list" where
  "split_overlaps tree =
     (let bounds = boundaries tree
      in remdups (concat (map (\<lambda>(lbound, ubound).
            map (\<lambda>iv. \<lparr>iv_begin = lbound, iv_end = ubound, iv_data = iv_data iv\<rparr>)
              (filter (\<lambda>iv. iv_begin iv \<le> lbound \<and> lbound < iv_end iv) tree))
          (zip (butlast bounds) (tl bounds)))))"

definition sorted_tree :: "interval list \<Rightarrow> interval list" where
  "sorted_tree tree = sort_key (\<lambda>iv. (iv_begin iv, iv_end iv)) tree"

subsection \<open>organize\_and\_split\_features\<close>

text \<open>
  The interpreter of a transcript: the SuperLoci of the transcript, the key of the
  transcript, and the list of feature ids that the constructor leaves empty.
\<close>

record interpreter =
  ti_super_loci :: superloci
  ti_transcript :: "string option"
  ti_features :: "string list"

definition TranscriptInterpreter :: "superloci \<Rightarrow> string option \<Rightarrow> interpreter" where
  "TranscriptInterpreter sl transcript =
     \<lparr>ti_super_loci = sl, ti_transcript = transcript, ti_features = []\<rparr>"

definition py_start :: "feature \<Rightarrow> int" where "py_start f = f_start f - 1"

definition py_end :: "feature \<Rightarrow> int" where "py_end f = f_end f"

fun lookup_features :: "string list \<Rightarrow> superloci \<Rightarrow> exn + feature list" where
  "lookup_features [] sl = Inr []"
| "lookup_features (f # fs) sl =
     (case map_of (sl_features sl) f of
        None \<Rightarrow> Inl KeyError
      | Some x \<Rightarrow> (case lookup_features fs sl of Inl e \<Rightarrow> Inl e | Inr xs \<Rightarrow> Inr (x # xs)))"

fun fill_tree :: "feature list \<Rightarrow> interval list \<Rightarrow> exn + interval list" where
  "fill_tree [] tree = Inr tree"
| "fill_tree (f # fs) tree =
     (case tree_add (py_start f) (py_end f) f tree of
        Inl e \<Rightarrow> Inl e
      | Inr tree' \<Rightarrow> fill_tree fs tree')"

text \<open>
  The loop over the sorted intervals: \<open>out\<close> is the cluster in hand, never empty, and it
  is yielded when an interval with another begin comes, and after the loop.
\<close>

fun cluster_loop :: "interval list \<Rightarrow> interval list \<Rightarrow> interval list list" where
  "cluster_loop out [] = [out]"
| "cluster_loop out (interval # intervals) =
     (if iv_begin (last out) = iv_begin interval
      then cluster_loop (out @ [interval]) intervals
      else out # cluster_loop [interval] intervals)"

definition organize_and_split_features :: "interpreter \<Rightarrow> interval list list \<times> exn option" where
  "organize_and_split_features self =
     (case lookup_features (ti_features self) (ti_super_loci self) of
        Inl e \<Rightarrow> ([], Some e)
      | Inr features \<Rightarrow>
          (case fill_tree features [] of
             Inl e \<Rightarrow> ([], Some e)
           | Inr tree \<Rightarrow>
               (case sorted_tree (split_overlaps tree) of
                  [] \<Rightarrow> ([], Some StopIteration)
                | first # intervals \<Rightarrow> (cluster_loop [first] intervals, None))))"

text \<open>
  Two stored intervals do not partially overlap when they have the same extent or no
  point in common.
\<close>

definition same_or_disjoint :: "interval \<Rightarrow> interval \<Rightarrow> bool" where
  "same_or_disjoint x y =
     ((iv_begin x = iv_begin y \<and> iv_end x = iv_end y) \<or> iv_end x \<le> iv_begin y
        \<or> iv_end y \<le> iv_begin x)"

text \<open>
  The locus \<^verbatim>\<open>g1\<close> after two CDS records with parent \<^verbatim>\<open>t1\<close>, over 1-100 and 50-150 of one
  sequence and strand; and what a cluster holds, in 1-based inclusive bases.
\<close>

definition locus_two_cds :: superloci where
  "locus_two_cds = locus_g1\<lparr>
     sl_transcripts := [(Some ''t1'', Transcribed\<lparr>t_id := Some ''t1'', t_type := ''mRNA'',
        t_features := [''a'', ''a'', ''b'', ''b'']\<rparr>)],
     sl_features := [(''a'', ingested cds ''a'' 1 100), (''b'', ingested cds ''b'' 50 150)],
     sl_genome := AnnotatedGenome\<lparr>feature_ider :=
        (IDMaker ''ftr'' 6)\<lparr>seen := {''a'', ''b''}\<rparr>\<rparr>\<rparr>"

text \<open>
  The rest of \<open>organize_and_split_features\<close> once the list of features is there: the tree
  is filled, split and sorted, and the sorted intervals are clustered.
\<close>

definition clusters_of :: "feature list \<Rightarrow> interval list list \<times> exn option" where
  "clusters_of features =
     (case fill_tree features [] of
        Inl e \<Rightarrow> ([], Some e)
      | Inr tree \<Rightarrow>
          (case sorted_tree (split_overlaps tree) of
             [] \<Rightarrow> ([], Some StopIteration)
           | first # intervals \<Rightarrow> (cluster_loop [first] intervals, None)))"

definition bases :: "interval list \<Rightarrow> (int \<times> int \<times> string) set" where
  "bases cluster = set (map (\<lambda>iv. (iv_begin iv + 1, iv_end iv, f_id (iv_data iv))) cluster)"

subsection \<open>Strand and direction of a feature\<close>

definition is_plus_strand :: "feature \<Rightarrow> exn + bool" where
  "is_plus_strand self =
     (if f_strand self = ''+'' then Inr True
      else if f_strand self = ''-'' then Inr False
      else Inl ValueError)"

definition upstream :: "feature \<Rightarrow> exn + int" where
  "upstream self =
     (case is_plus_strand self of
        Inl e \<Rightarrow> Inl e
      | Inr is_plus \<Rightarrow> Inr (if is_plus then f_start self else f_end self))"

definition downstream :: "feature \<Rightarrow> exn + int" where
  "downstream self =
     (case is_plus_strand self of
        Inl e \<Rightarrow> Inl e
      | Inr is_plus \<Rightarrow> Inr (if is_plus then f_end self else f_start self))"

text \<open>
  \<^verbatim>\<open>cds_template.begin\<close>: a StructuredFeature has the attributes of the record
  \<open>feature\<close>, and \<^verbatim>\<open>begin\<close> is not one of them (it is an attribute of an interval).
\<close>

definition feature_begin :: "feature \<Rightarrow> exn + int" where
  "feature_begin self = Inl AttributeError"

definition first_data :: "interval list \<Rightarrow> exn + feature" where
  "first_data ivals = (case ivals of [] \<Rightarrow> Inl IndexError | iv # _ \<Rightarrow> Inr (iv_data iv))"

subsection \<open>get\_status and possible\_types\<close>

definition get_status :: "string \<Rightarrow> string \<Rightarrow> exn + string \<times> string" where
  "get_status last_seen pre_intron =
     (if last_seen \<in> set statuses then Inr (last_seen, pre_intron)
      else if last_seen = TSS then Inr (status_five_prime_UTR, status_five_prime_UTR)
      else if last_seen = start_codon then Inr (status_coding, status_coding)
      else if last_seen = stop_codon then Inr (status_three_prime_UTR, status_three_prime_UTR)
      else if last_seen = TTS then Inr (status_intergenic, status_intergenic)
      else if last_seen = donor_splice_site then Inr (status_intron, pre_intron)
      else if last_seen = acceptor_splice_site then Inr (pre_intron, pre_intron)
      else Inl ValueError)"

definition possible_types :: "interval list \<Rightarrow> exn + string list" where
  "possible_types intervals =
     (let observed_types = map (\<lambda>x. f_type (iv_data x)) intervals;
          set_o_types = set observed_types
      in if length intervals \<notin> {1, 2} then Inl ValueError
         else if set_o_types = {exon, five_prime_UTR} \<or> set_o_types = {five_prime_UTR}
         then Inr [five_prime_UTR]
         else if set_o_types = {exon, three_prime_UTR} \<or> set_o_types = {three_prime_UTR}
         then Inr [three_prime_UTR]
         else if set_o_types = {exon} then Inr [five_prime_UTR, three_prime_UTR]
         else if set_o_types = {cds, exon} \<or> set_o_types = {cds} then Inr [cds]
         else Inl ValueError)"

subsection \<open>interpret\_transition\<close>

text \<open>
  The two branches of the 5' UTR status. Each \<^verbatim>\<open>assert\<close> is a branch that raises
  \<^verbatim>\<open>AssertionError\<close>; \<^verbatim>\<open>x.start = x.end = v\<close> evaluates \<open>v\<close> once and assigns it to both;
  \<^verbatim>\<open>cds_template.frame == 1\<close> compares a string with an integer.
\<close>

definition start_codon_transition ::
  "interval list \<Rightarrow> interval list \<Rightarrow> superloci \<Rightarrow> exn + feature list \<times> superloci" where
  "start_codon_transition ivals_before ivals_after sl =
     (case first_data ivals_after of
        Inl e \<Rightarrow> Inl e
      | Inr cds_template \<Rightarrow>
     (case first_data ivals_before of
        Inl e \<Rightarrow> Inl e
      | Inr before \<Rightarrow>
     (case feature_begin cds_template of
        Inl e \<Rightarrow> Inl e
      | Inr b \<Rightarrow>
          if f_end before \<noteq> b then Inl AssertionError
          else if PyStr (f_frame cds_template) \<noteq> PyInt 1 then Inl AssertionError
          else (case clone cds_template True sl of
                  Inl e \<Rightarrow> Inl e
                | Inr (feature0, sl') \<Rightarrow>
                    (case upstream feature0 of
                       Inl e \<Rightarrow> Inl e
                     | Inr u \<Rightarrow>
                         Inr ([feature0\<lparr>f_start := u, f_end := u, f_type := start_codon\<rparr>],
                              sl'))))))"

definition intron_transition ::
  "int \<Rightarrow> interval list \<Rightarrow> interval list \<Rightarrow> superloci \<Rightarrow> exn + feature list \<times> superloci" where
  "intron_transition sign ivals_before ivals_after sl =
     (case first_data ivals_before of
        Inl e \<Rightarrow> Inl e
      | Inr donor_template \<Rightarrow>
     (case first_data ivals_after of
        Inl e \<Rightarrow> Inl e
      | Inr acceptor_template \<Rightarrow>
     (case downstream donor_template of
        Inl e \<Rightarrow> Inl e
      | Inr dn \<Rightarrow>
     (case upstream acceptor_template of
        Inl e \<Rightarrow> Inl e
      | Inr up \<Rightarrow>
          if \<not> dn * sign < up * sign then Inl AssertionError
          else (case clone donor_template True sl of
                  Inl e \<Rightarrow> Inl e
                | Inr (donor, sl1) \<Rightarrow>
                    (case downstream donor of
                       Inl e \<Rightarrow> Inl e
                     | Inr d \<Rightarrow>
                         (case clone acceptor_template True sl1 of
                            Inl e \<Rightarrow> Inl e
                          | Inr (acceptor, sl2) \<Rightarrow>
                              (case upstream acceptor of
                                 Inl e \<Rightarrow> Inl e
                               | Inr a \<Rightarrow>
                                   Inr ([donor\<lparr>f_start := d + 1 * sign, f_end := d + 1 * sign\<rparr>,
                                         acceptor\<lparr>f_start := a - 1 * sign,
                                                  f_end := a - 1 * sign\<rparr>], sl2)))))))))"

text \<open>
  \<open>status_in\<close> is what \<open>get_status\<close> returns, the pair of the current status and the
  status before the intron, and it is this pair that is compared with the string
  \<^verbatim>\<open>gffkey.five_prime_UTR\<close>. The result is the list \<^verbatim>\<open>new_features\<close> (returned in a tuple of
  one element) and the SuperLoci as the clones have left it.
\<close>

definition interpret_transition ::
  "superloci \<Rightarrow> feature \<Rightarrow> string \<Rightarrow> interval list \<Rightarrow> interval list \<Rightarrow> bool
     \<Rightarrow> exn + feature list \<times> superloci" where
  "interpret_transition sl last_feature pre_intron_status ivals_before ivals_after plus_strand =
     (case get_status (f_type last_feature) pre_intron_status of
        Inl e \<Rightarrow> Inl e
      | Inr (current, pre_intron) \<Rightarrow>
          let status_in = PyTuple [PyStr current, PyStr pre_intron];
              sign = (if \<not> plus_strand then - 1 else 1)
          in (case possible_types ivals_before of
                Inl e \<Rightarrow> Inl e
              | Inr before_types \<Rightarrow>
                  (case possible_types ivals_after of
                     Inl e \<Rightarrow> Inl e
                   | Inr after_types \<Rightarrow>
                       if status_in = PyStr five_prime_UTR
                       then (if five_prime_UTR \<in> set before_types \<and> cds \<in> set after_types
                             then start_codon_transition ivals_before ivals_after sl
                             else if five_prime_UTR \<in> set before_types
                                     \<and> five_prime_UTR \<in> set after_types
                             then intron_transition sign ivals_before ivals_after sl
                             else Inl ValueError)
                       else Inr ([], sl))))"

subsection \<open>Clusters at the 5' end of a transcript\<close>

text \<open>
  The cluster of one feature of the locus \<^verbatim>\<open>g1\<close>, as \<open>organize_and_split_features\<close>
  yields it, and the feature emitted last, of a given type.
\<close>

definition cluster_of :: "string \<Rightarrow> string \<Rightarrow> int \<Rightarrow> int \<Rightarrow> interval list" where
  "cluster_of ty i s e =
     [\<lparr>iv_begin = s - 1, iv_end = e, iv_data = ingested ty i s e\<rparr>]"

definition emitted :: "string \<Rightarrow> feature" where
  "emitted ty = ingested ty ''ftr000000'' 1 1"

section \<open>Properties of the allocator\<close>

text \<open>
  What the allocator does keep: a suggestion that was not issued before is returned as
  it is, and every id returned is recorded as issued.
\<close>

lemma next_unique_id_verbatim:
  "suggestion \<notin> seen m \<Longrightarrow> fst (next_unique_id (Some suggestion) m) = suggestion"
  by simp

lemma next_unique_id_recorded:
  "fst (next_unique_id s m) \<in> seen (snd (next_unique_id s m))"
  by (cases s) (simp_all add: new_id_def Let_def)

text \<open>
  C1. The ids returned by one allocator are claimed pairwise distinct. A synthesized id
  is not compared with the ids already issued: after the suggestion \<^verbatim>\<open>ftr000000\<close> has been
  returned verbatim, the first synthesized id of an allocator with prefix \<^verbatim>\<open>ftr\<close> is the
  same string.
\<close>

theorem next_unique_id_repeats:
  "fst (issue_all [Some ''ftr000000'', None] (IDMaker ''ftr'' 6)) = [''ftr000000'', ''ftr000000'']
   \<and> \<not> distinct (fst (issue_all [Some ''ftr000000'', None] (IDMaker ''ftr'' 6)))"
  by code_simp

section \<open>Properties of the grouping\<close>

lemma skipable_known: "x \<in> set skipable \<Longrightarrow> x \<in> set known"
  by (auto simp: skipable_def known_def)

lemma useful_all_skipable:
  "\<forall>e\<in>set gff_file. e_type e \<in> set skipable \<Longrightarrow> useful_gff_entries gff_file = ([], None)"
  by (induction gff_file) (auto simp: skipable_known)

lemma group_loop_shape:
  "group_loop gg reader None = (gs, r) \<Longrightarrow>
     r = None \<and> concat gs = gg @ reader
     \<and> (\<exists>suffix rest. gs = (gg @ suffix) # rest \<and> (\<forall>x\<in>set suffix. e_type x \<noteq> ''gene'')
          \<and> (\<forall>g\<in>set rest. g \<noteq> [] \<and> e_type (hd g) = ''gene''
                \<and> (\<forall>x\<in>set (tl g). e_type x \<noteq> ''gene'')))"
proof (induction reader arbitrary: gg gs r)
  case Nil
  then have "r = None" and "gs = [gg]" by simp_all
  then show ?case by simp
next
  case (Cons entry reader)
  show ?case
  proof (cases "e_type entry = ''gene''")
    case True
    obtain gs' r' where rec: "group_loop [entry] reader None = (gs', r')"
      by (cases "group_loop [entry] reader None") simp
    from Cons.IH [OF rec] obtain suffix rest where
      r': "r' = None" and cc: "concat gs' = [entry] @ reader" and
      gs': "gs' = ([entry] @ suffix) # rest" and
      suf: "\<forall>x\<in>set suffix. e_type x \<noteq> ''gene''" and
      rst: "\<forall>g\<in>set rest. g \<noteq> [] \<and> e_type (hd g) = ''gene''
              \<and> (\<forall>x\<in>set (tl g). e_type x \<noteq> ''gene'')"
      by blast
    have "group_loop gg (entry # reader) None = (gg # gs', r')"
      using True rec by (simp del: One_nat_def)
    with Cons.prems have gs: "gs = gg # gs'" and r: "r = r'" by simp_all
    have a: "gs = (gg @ []) # (([entry] @ suffix) # rest)" using gs gs' by simp
    have b: "\<forall>x\<in>set ([]::gff_entry list). e_type x \<noteq> ''gene''" by simp
    have c: "\<forall>g\<in>set (([entry] @ suffix) # rest). g \<noteq> [] \<and> e_type (hd g) = ''gene''
              \<and> (\<forall>x\<in>set (tl g). e_type x \<noteq> ''gene'')"
    proof
      fix g assume "g \<in> set (([entry] @ suffix) # rest)"
      then consider "g = entry # suffix" | "g \<in> set rest" by auto
      then show "g \<noteq> [] \<and> e_type (hd g) = ''gene'' \<and> (\<forall>x\<in>set (tl g). e_type x \<noteq> ''gene'')"
      proof cases
        case 1
        then have "g \<noteq> []" "hd g = entry" "tl g = suffix" by simp_all
        then show ?thesis using True suf by metis
      next
        case 2
        then show ?thesis using rst by blast
      qed
    qed
    have d: "concat gs = gg @ entry # reader" using gs cc by simp
    have "r = None" using r r' by simp
    moreover note d
    moreover have "\<exists>suffix rest. gs = (gg @ suffix) # rest \<and> (\<forall>x\<in>set suffix. e_type x \<noteq> ''gene'')
          \<and> (\<forall>g\<in>set rest. g \<noteq> [] \<and> e_type (hd g) = ''gene''
                \<and> (\<forall>x\<in>set (tl g). e_type x \<noteq> ''gene''))"
      using a b c by blast
    ultimately show ?thesis by blast
  next
    case False
    have "group_loop gg (entry # reader) None = group_loop (gg @ [entry]) reader None"
      using False by simp
    with Cons.prems have rec: "group_loop (gg @ [entry]) reader None = (gs, r)" by simp
    from Cons.IH [OF rec] obtain suffix rest where
      r: "r = None" and cc: "concat gs = (gg @ [entry]) @ reader" and
      gs: "gs = ((gg @ [entry]) @ suffix) # rest" and
      suf: "\<forall>x\<in>set suffix. e_type x \<noteq> ''gene''" and
      rst: "\<forall>g\<in>set rest. g \<noteq> [] \<and> e_type (hd g) = ''gene''
              \<and> (\<forall>x\<in>set (tl g). e_type x \<noteq> ''gene'')"
      by blast
    have a: "gs = (gg @ (entry # suffix)) # rest" using gs by simp
    have b: "\<forall>x\<in>set (entry # suffix). e_type x \<noteq> ''gene''"
    proof
      fix x assume "x \<in> set (entry # suffix)"
      then have "x = entry \<or> x \<in> set suffix" by simp
      then show "e_type x \<noteq> ''gene''" using False suf by blast
    qed
    have d: "concat gs = gg @ entry # reader" using cc by simp
    have "\<exists>suffix rest. gs = (gg @ suffix) # rest \<and> (\<forall>x\<in>set suffix. e_type x \<noteq> ''gene'')
          \<and> (\<forall>g\<in>set rest. g \<noteq> [] \<and> e_type (hd g) = ''gene''
                \<and> (\<forall>x\<in>set (tl g). e_type x \<noteq> ''gene''))"
      using a b rst by blast
    with r d show ?thesis by blast
  qed
qed

text \<open>
  C3, as stated: a group starts at each record of a gene-level type. The loop compares
  the type with \<^verbatim>\<open>'gene'\<close> only, so a pseudogene record after a gene record stays in the
  group of the gene.
\<close>

theorem group_gff_by_gene_pseudogene_absorbed:
  "\<not> gene_level_starts_group
        (fst (group_gff_by_gene [entry_of_type ''gene'' ''g1'', entry_of_type ''pseudogene'' ''p1'']))"
  by code_simp

text \<open>
  C3, amended: when the reader yields at least one record and ends without an exception,
  the groups are yielded in input order and hold every yielded record once
  (their concatenation is the reader's output), no group is empty, every group but the
  first starts at a record of type \<^verbatim>\<open>gene\<close>, and no group holds a record of type
  \<^verbatim>\<open>gene\<close> after its first one.
\<close>

theorem group_gff_by_gene_groups:
  assumes "useful_gff_entries gff_file = (first # reader, None)"
  shows "\<exists>groups. group_gff_by_gene gff_file = (groups, None)
           \<and> concat groups = first # reader
           \<and> (\<forall>g\<in>set groups. g \<noteq> [] \<and> (\<forall>x\<in>set (tl g). e_type x \<noteq> ''gene''))
           \<and> (\<forall>g\<in>set (tl groups). e_type (hd g) = ''gene'')"
proof -
  obtain gs r where run: "group_loop [first] reader None = (gs, r)"
    by (cases "group_loop [first] reader None") auto
  from group_loop_shape [OF run] obtain suffix rest where
    r: "r = None" and cc: "concat gs = [first] @ reader" and
    gs: "gs = ([first] @ suffix) # rest" and
    suf: "\<forall>x\<in>set suffix. e_type x \<noteq> ''gene''" and
    rst: "\<forall>g\<in>set rest. g \<noteq> [] \<and> e_type (hd g) = ''gene''
            \<and> (\<forall>x\<in>set (tl g). e_type x \<noteq> ''gene'')"
    by blast
  have "group_gff_by_gene gff_file = (gs, None)"
    using assms run r by (simp add: group_gff_by_gene_def)
  moreover have "concat gs = first # reader" using cc by simp
  moreover have "\<forall>g\<in>set gs. g \<noteq> [] \<and> (\<forall>x\<in>set (tl g). e_type x \<noteq> ''gene'')"
    using gs suf rst by auto
  moreover have "\<forall>g\<in>set (tl gs). e_type (hd g) = ''gene''" using gs rst by auto
  ultimately show ?thesis by blast
qed

theorem group_gff_by_gene_groups_witness:
  "concat (fst (group_gff_by_gene [entry_of_type ''gene'' ''g1'', entry_of_type ''mRNA'' ''t1'',
        entry_of_type ''region'' ''r1'', entry_of_type ''gene'' ''g2'']))
     = [entry_of_type ''gene'' ''g1'', entry_of_type ''mRNA'' ''t1'', entry_of_type ''gene'' ''g2'']
   \<and> snd (group_gff_by_gene [entry_of_type ''gene'' ''g1'', entry_of_type ''mRNA'' ''t1'',
        entry_of_type ''region'' ''r1'', entry_of_type ''gene'' ''g2'']) = None"
proof -
  have h: "useful_gff_entries [entry_of_type ''gene'' ''g1'', entry_of_type ''mRNA'' ''t1'',
        entry_of_type ''region'' ''r1'', entry_of_type ''gene'' ''g2'']
      = (entry_of_type ''gene'' ''g1'' # [entry_of_type ''mRNA'' ''t1'', entry_of_type ''gene'' ''g2''],
         None)"
    by code_simp
  from group_gff_by_gene_groups [OF h] obtain groups where
    "group_gff_by_gene [entry_of_type ''gene'' ''g1'', entry_of_type ''mRNA'' ''t1'',
        entry_of_type ''region'' ''r1'', entry_of_type ''gene'' ''g2''] = (groups, None)"
    and "concat groups = entry_of_type ''gene'' ''g1''
           # [entry_of_type ''mRNA'' ''t1'', entry_of_type ''gene'' ''g2'']"
    by blast
  then show ?thesis by simp
qed

text \<open>
  C10. When every record of the input is of a region or ignorable type (or there is no
  record at all), the reader yields nothing and the first step of \<open>group_gff_by_gene\<close>,
  \<^verbatim>\<open>next(reader)\<close>, raises: no group is yielded and the generator does not end normally.
\<close>

theorem group_gff_by_gene_nothing_useful:
  assumes "\<forall>e\<in>set gff_file. e_type e \<in> set regions \<union> set ignorable"
  shows "group_gff_by_gene gff_file = ([], Some StopIteration)"
proof -
  from assms have "\<forall>e\<in>set gff_file. e_type e \<in> set skipable"
    by (simp add: skipable_def)
  then have "useful_gff_entries gff_file = ([], None)" by (rule useful_all_skipable)
  then show ?thesis by (simp add: group_gff_by_gene_def)
qed

theorem group_gff_by_gene_nothing_useful_witness:
  "group_gff_by_gene [entry_of_type ''region'' ''r1'', entry_of_type ''cDNA_match'' ''m1'']
     = ([], Some StopIteration)"
proof -
  have h: "\<forall>e\<in>set [entry_of_type ''region'' ''r1'', entry_of_type ''cDNA_match'' ''m1''].
       e_type e \<in> set regions \<union> set ignorable"
    by (simp add: entry_of_type_def regions_def ignorable_def)
  show ?thesis by (rule group_gff_by_gene_nothing_useful [OF h])
qed

section \<open>Properties of the ingestion of a feature record\<close>

text \<open>
  C2. A feature record whose parent is neither a transcript of the locus nor the locus
  itself is claimed to be marked \<^verbatim>\<open>error\<close>, left unlinked, and \<open>add_data\<close> to return
  normally. After the \<^verbatim>\<open>except\<close> block has set the type and \<^verbatim>\<open>new_t_id = None\<close>, the loop
  body still calls \<open>link_to_transcript_and_back\<close> with \<^verbatim>\<open>None\<close>, whose lookup in the map of
  transcripts raises \<^verbatim>\<open>KeyError\<close>: here for an exon record with parent \<^verbatim>\<open>t9\<close> in a locus
  \<^verbatim>\<open>g1\<close> whose only transcript is \<^verbatim>\<open>t1\<close>.
\<close>

theorem add_data_unresolved_parent_raises:
  "add_data StructuredFeature locus_g1 (sub_entry ''exon'' ''e1'' [''t9''] 1 100) = Inl KeyError"
  by code_simp

lemma locus_g1_ingested:
  "add_gff_entries (SuperLoci AnnotatedGenome)
      [sub_entry ''gene'' ''g1'' [] 1 200, sub_entry ''mRNA'' ''t1'' [''g1''] 1 200] = Inr locus_g1"
  by code_simp

text \<open>
  Two records whose parent is the gene share one placeholder transcript. And once a
  transcript record has taken the id of the placeholder, a further such record is linked
  to the placeholder outside the map by \<open>link_to_feature\<close> and to the transcript of the
  record by \<open>link_to_transcript_and_back\<close>.
\<close>

lemma dummy_transcript_shared:
  "map (\<lambda>(k, t). (k, t_features t))
       (sl_transcripts (projr (add_gff_entries locus_g1
          [sub_entry ''exon'' ''e1'' [''g1''] 1 100, sub_entry ''exon'' ''e2'' [''g1''] 101 200])))
     = [(Some ''t1'', []), (Some ''trx000000'', [''e1'', ''e1'', ''e2'', ''e2''])]"
  by code_simp

lemma dummy_transcript_orphaned:
  "map (\<lambda>(k, t). (k, t_type t, t_features t))
       (sl_transcripts (projr (add_gff_entries locus_g1
          [sub_entry ''exon'' ''e1'' [''g1''] 1 100, sub_entry ''mRNA'' ''trx000000'' [''g1''] 1 200,
           sub_entry ''exon'' ''e2'' [''g1''] 101 200])))
     = [(Some ''t1'', ''mRNA'', []), (Some ''trx000000'', ''mRNA'', [''e2''])]
   \<and> sl_dummy_transcript (projr (add_gff_entries locus_g1
          [sub_entry ''exon'' ''e1'' [''g1''] 1 100, sub_entry ''mRNA'' ''trx000000'' [''g1''] 1 200,
           sub_entry ''exon'' ''e2'' [''g1''] 101 200]))
     = Some (Orphan (Transcribed\<lparr>t_id := Some ''trx000000'',
                       t_features := [''e1'', ''e1'', ''e2'']\<rparr>))"
  by code_simp

lemma map_of_map_entry_same:
  "map_of xs k = Some v \<Longrightarrow> map_of (AList.map_entry k f xs) k = Some (f v)"
  by (simp add: map_of_map_entry)

text \<open>
  C9. When the single declared parent of a feature record is the key of a transcript of
  the locus, \<open>add_data\<close> returns normally, the transcript's feature list has gained the
  id of the feature twice (at its end), and the feature's transcript list has gained the
  transcript id once.
\<close>

theorem add_data_links_twice:
  assumes "e_Parent gff_entry = [p]" and "map_of (sl_transcripts sl) (Some p) = Some t"
  shows "\<exists>self' sl'. add_data self sl gff_entry = Inr (self', sl')
           \<and> map_of (sl_transcripts sl') (Some p)
               = Some (t\<lparr>t_features := t_features t @ [f_id self', f_id self']\<rparr>)
           \<and> f_transcripts self' = f_transcripts self @ [Some p]"
proof -
  obtain i ider where nu: "next_unique_id (e_ID gff_entry) (feature_ider (sl_genome sl)) = (i, ider)"
    by (cases "next_unique_id (e_ID gff_entry) (feature_ider (sl_genome sl))") simp
  define sl0 where "sl0 = sl\<lparr>sl_genome := (sl_genome sl)\<lparr>feature_ider := ider\<rparr>\<rparr>"
  define self1 where "self1 = self\<lparr>f_id := i, f_type := e_type gff_entry,
      f_start := e_start gff_entry, f_end := e_end gff_entry, f_strand := e_strand gff_entry,
      f_seqid := e_seqid gff_entry, f_super_loci := ThisLocus\<rparr>"
  have ad: "add_data self sl gff_entry = add_data_parents [p] self1 sl0"
    using nu assms(1) by (simp add: add_data_def sl0_def self1_def del: add_data_parents.simps)
  have t0: "map_of (sl_transcripts sl0) (Some p) = Some t" using assms(2) by (simp add: sl0_def)
  define sl1 where "sl1 = sl0\<lparr>sl_transcripts := AList.map_entry (Some p)
      (link_to_feature (f_id self1)) (sl_transcripts sl0)\<rparr>"
  have t1: "map_of (sl_transcripts sl1) (Some p) = Some (link_to_feature i t)"
    using t0 by (simp add: sl1_def self1_def map_of_map_entry_same)
  define self2 where "self2 = self1\<lparr>f_transcripts := f_transcripts self1 @ [Some p]\<rparr>"
  define sl2 where "sl2 = sl1\<lparr>sl_transcripts := AList.map_entry (Some p)
      (link_to_feature (f_id self1)) (sl_transcripts sl1)\<rparr>"
  have lk: "link_to_transcript_and_back (Some p) self1 sl1 = Inr (self2, sl2)"
    using t1 by (simp add: link_to_transcript_and_back_def self1_def self2_def sl2_def)
  have "add_data_parents [p] self1 sl0 = Inr (self2, sl2)"
    using t0 lk by (simp add: sl1_def)
  moreover have "map_of (sl_transcripts sl2) (Some p)
      = Some (t\<lparr>t_features := t_features t @ [f_id self2, f_id self2]\<rparr>)"
    using t1 by (simp add: sl2_def self2_def self1_def map_of_map_entry_same link_to_feature_def)
  moreover have "f_transcripts self2 = f_transcripts self @ [Some p]"
    by (simp add: self2_def self1_def)
  ultimately show ?thesis using ad by simp
qed

theorem add_data_links_twice_witness:
  "map_of (sl_transcripts (snd (projr (add_data StructuredFeature locus_g1
        (sub_entry ''exon'' ''e1'' [''t1''] 1 100))))) (Some ''t1'')
     = Some (Transcribed\<lparr>t_id := Some ''t1'', t_type := ''mRNA'', t_features := [''e1'', ''e1'']\<rparr>)
   \<and> f_transcripts (fst (projr (add_data StructuredFeature locus_g1
        (sub_entry ''exon'' ''e1'' [''t1''] 1 100)))) = [Some ''t1'']"
proof -
  have p: "e_Parent (sub_entry ''exon'' ''e1'' [''t1''] 1 100) = [''t1'']"
    by (simp add: sub_entry_def)
  have t: "map_of (sl_transcripts locus_g1) (Some ''t1'')
      = Some (Transcribed\<lparr>t_id := Some ''t1'', t_type := ''mRNA''\<rparr>)"
    by (simp add: locus_g1_def SuperLoci_def)
  have i: "f_id (fst (projr (add_data StructuredFeature locus_g1
        (sub_entry ''exon'' ''e1'' [''t1''] 1 100)))) = ''e1''"
    by code_simp
  from add_data_links_twice [OF p t, of StructuredFeature] obtain self' sl' where
    "add_data StructuredFeature locus_g1 (sub_entry ''exon'' ''e1'' [''t1''] 1 100) = Inr (self', sl')"
    and "map_of (sl_transcripts sl') (Some ''t1'')
       = Some (Transcribed\<lparr>t_id := Some ''t1'', t_type := ''mRNA'',
                 t_features := t_features (Transcribed\<lparr>t_id := Some ''t1'', t_type := ''mRNA''\<rparr>)
                    @ [f_id self', f_id self']\<rparr>)"
    and "f_transcripts self' = f_transcripts StructuredFeature @ [Some ''t1'']"
    by auto
  then show ?thesis using i by (simp add: Transcribed_def StructuredFeature_def)
qed

section \<open>Properties of the collapse of identical features\<close>

lemma fully_overlaps_signature: "fully_overlaps f g \<longleftrightarrow> signature f = signature g"
  by (simp add: fully_overlaps_def signature_def)

lemma link_keeps:
  "link_to_transcript_and_back t f s = Inr (f', s') \<Longrightarrow>
     sl_features s' = sl_features s \<and> signature f' = signature f"
  by (auto simp: link_to_transcript_and_back_def signature_def split: owner.splits option.splits)

lemma de_link_keeps:
  "de_link_from_transcript t f s = Inr (f', s') \<Longrightarrow>
     sl_features s' = sl_features s \<and> signature f' = signature f"
  by (auto simp: de_link_from_transcript_def signature_def
      split: owner.splits option.splits sum.splits if_splits)

lemma merge_loop_keeps:
  "merge_loop ts f g s = Inr (f', g', s') \<Longrightarrow>
     sl_features s' = sl_features s \<and> signature f' = signature f"
proof (induction ts arbitrary: f g s)
  case Nil
  then show ?case by simp
next
  case (Cons t ts)
  from Cons.prems obtain f1 s1 g1 s2 where
    a: "link_to_transcript_and_back t f s = Inr (f1, s1)" and
    b: "de_link_from_transcript t g s1 = Inr (g1, s2)" and
    c: "merge_loop ts f1 g1 s2 = Inr (f', g', s')"
    by (auto split: sum.splits)
  show ?case using Cons.IH [OF c] link_keeps [OF a] de_link_keeps [OF b] by simp
qed

lemma map_entry_const_same:
  "map_of xs k = Some v \<Longrightarrow> AList.map_entry k (\<lambda>_. v) xs = xs"
  by (induction xs) (auto split: if_splits)

lemma apsnd_map_entry:
  "map (apsnd h) (AList.map_entry k (\<lambda>_. v) xs) = AList.map_entry k (\<lambda>_. h v) (map (apsnd h) xs)"
  by (induction xs) auto

lemma apsnd_delete:
  "map (apsnd h) (AList.delete k xs) = AList.delete k (map (apsnd h) xs)"
  by (induction xs) auto

lemma delete_as_filter: "AList.delete k xs = filter (\<lambda>p. fst p \<noteq> k) xs"
  by (induction xs) auto

lemma map_of_apsnd:
  "map_of xs x = Some g \<Longrightarrow> map_of (map (apsnd h) xs) x = Some (h g)"
  by (induction xs) (auto split: if_splits)

lemma sgm_lookup: "map_of (sl_features s) x = Some g \<Longrightarrow> sgm s x = Some (signature g)"
  by (simp add: sgm_def map_of_apsnd)

lemma apsnd_filter_key:
  "map (apsnd h) (filter (\<lambda>p. fst p \<noteq> k) xs) = filter (\<lambda>p. fst p \<noteq> k) (map (apsnd h) xs)"
  by (induction xs) auto

lemma map_of_filter_key:
  "map_of (filter (\<lambda>p. fst p \<noteq> k) xs) x = (if x = k then None else map_of xs x)"
  by (induction xs) auto

lemma collapse_inner_effect:
  assumes "collapse_inner k f os s = Inr s'" and "k \<notin> set os"
    and "sgm s k = Some (signature f)"
  shows "map (apsnd signature) (sl_features s')
     = filter (\<lambda>p. \<not> (fst p \<in> set os \<and> sgm s (fst p) = Some (signature f)))
         (map (apsnd signature) (sl_features s))"
  using assms
proof (induction os arbitrary: f s)
  case Nil
  then show ?case by simp
next
  case (Cons o_key os)
  from Cons.prems(1) obtain other where
    lk: "map_of (sl_features s) o_key = Some other"
    by (auto split: option.splits)
  have so: "sgm s o_key = Some (signature other)" using lk by (rule sgm_lookup)
  have kno: "k \<noteq> o_key" and kn: "k \<notin> set os" using Cons.prems(2) by auto
  show ?case
  proof (cases "fully_overlaps f other")
    case True
    with Cons.prems(1) lk obtain f1 g1 s1 where
      m: "merge f other s = Inr (f1, g1, s1)" and
      r: "collapse_inner k f1 os (s1\<lparr>sl_features := AList.delete o_key
            (AList.map_entry k (\<lambda>_. f1) (sl_features s1))\<rparr>) = Inr s'"
      by (auto split: sum.splits)
    define s2 where "s2 = s1\<lparr>sl_features := AList.delete o_key
            (AList.map_entry k (\<lambda>_. f1) (sl_features s1))\<rparr>"
    have fs: "sl_features s1 = sl_features s" and sg1: "signature f1 = signature f"
      using merge_loop_keeps m by (auto simp: merge_def)
    have "map (apsnd signature) (AList.map_entry k (\<lambda>_. f1) (sl_features s))
        = map (apsnd signature) (sl_features s)"
      using Cons.prems(3) sg1
      by (simp add: apsnd_map_entry map_entry_const_same sgm_def)
    then have S2: "map (apsnd signature) (sl_features s2)
        = filter (\<lambda>p. fst p \<noteq> o_key) (map (apsnd signature) (sl_features s))"
      by (simp add: s2_def fs delete_as_filter apsnd_filter_key)
    have sg2: "sgm s2 x = (if x = o_key then None else sgm s x)" for x
      unfolding sgm_def S2 by (rule map_of_filter_key)
    have k2: "sgm s2 k = Some (signature f1)" using sg2 kno Cons.prems(3) sg1 by simp
    from Cons.IH [OF r [folded s2_def] kn k2]
    have "map (apsnd signature) (sl_features s')
       = filter (\<lambda>p. \<not> (fst p \<in> set os \<and> sgm s2 (fst p) = Some (signature f1)))
           (filter (\<lambda>p. fst p \<noteq> o_key) (map (apsnd signature) (sl_features s)))"
      using S2 by simp
    also have "\<dots> = filter (\<lambda>p. \<not> (fst p \<in> set (o_key # os) \<and> sgm s (fst p) = Some (signature f)))
           (map (apsnd signature) (sl_features s))"
      using True so sg1 by (auto simp: fully_overlaps_signature sg2 intro!: filter_cong)
    finally show ?thesis .
  next
    case False
    with Cons.prems(1) lk have r: "collapse_inner k f os s = Inr s'" by simp
    have "so \<noteq> Some (signature f)" if "so = sgm s o_key" for so
      using that so False by (auto simp: fully_overlaps_signature)
    then have "sgm s o_key \<noteq> Some (signature f)" by simp
    then have "filter (\<lambda>p. \<not> (fst p \<in> set os \<and> sgm s (fst p) = Some (signature f)))
           (map (apsnd signature) (sl_features s))
       = filter (\<lambda>p. \<not> (fst p \<in> set (o_key # os) \<and> sgm s (fst p) = Some (signature f)))
           (map (apsnd signature) (sl_features s))"
      by (auto intro!: filter_cong)
    then show ?thesis using Cons.IH [OF r kn Cons.prems(3)] by simp
  qed
qed

lemma collapse_inner_noop:
  "\<forall>o_key\<in>set os. \<exists>g. map_of (sl_features s) o_key = Some g \<and> \<not> fully_overlaps f g \<Longrightarrow>
     collapse_inner k f os s = Inr s"
  by (induction os) auto

lemma map_of_filter_fst:
  "map_of (filter (\<lambda>p. Q (fst p)) xs) x = (if Q x then map_of xs x else None)"
  by (induction xs) auto

lemma keys_filter_fst:
  "map fst (filter (\<lambda>p. Q (fst p)) (map (apsnd h) xs)) = filter Q (map fst xs)"
  by (induction xs) auto

lemma collapse_inner_keys:
  assumes "collapse_inner k f os s = Inr s'" and "k \<notin> set os"
    and "sgm s k = Some (signature f)"
  shows "keys s' = filter (\<lambda>x. \<not> (x \<in> set os \<and> sgm s x = Some (signature f))) (keys s)"
proof -
  have "keys s' = map fst (map (apsnd signature) (sl_features s'))"
    by (simp add: keys_def comp_def)
  also have "\<dots> = map fst (filter (\<lambda>p. \<not> (fst p \<in> set os \<and> sgm s (fst p) = Some (signature f)))
         (map (apsnd signature) (sl_features s)))"
    using collapse_inner_effect [OF assms] by simp
  also have "\<dots> = filter (\<lambda>x. \<not> (x \<in> set os \<and> sgm s x = Some (signature f))) (keys s)"
    unfolding keys_def by (rule keys_filter_fst)
  finally show ?thesis .
qed

lemma collapse_inner_sgm:
  assumes "collapse_inner k f os s = Inr s'" and "k \<notin> set os"
    and "sgm s k = Some (signature f)"
  shows "sgm s' x = (if x \<in> set os \<and> sgm s x = Some (signature f) then None else sgm s x)"
proof -
  have "sgm s' x = map_of (filter (\<lambda>p. \<not> (fst p \<in> set os \<and> sgm s (fst p) = Some (signature f)))
         (map (apsnd signature) (sl_features s))) x"
    using collapse_inner_effect [OF assms] by (simp add: sgm_def)
  also have "\<dots> = (if \<not> (x \<in> set os \<and> sgm s x = Some (signature f))
                   then map_of (map (apsnd signature) (sl_features s)) x else None)"
    by (rule map_of_filter_fst)
  finally show ?thesis by (simp add: sgm_def)
qed

lemma take_filter_later:
  assumes "distinct K" and "n \<le> length K" and "\<And>x. \<not> Q x \<Longrightarrow> x \<in> set (drop n K)"
  shows "take n (filter Q K) = take n K"
proof -
  have disj: "set (take n K) \<inter> set (drop n K) = {}"
    using assms(1) by (rule set_take_disj_set_drop_if_distinct) simp
  have "filter Q (take n K) = take n K"
  proof (rule filter_True, rule ballI)
    fix x assume x: "x \<in> set (take n K)"
    with disj have "x \<notin> set (drop n K)" by blast
    with assms(3) show "Q x" by blast
  qed
  moreover have "filter Q K = filter Q (take n K) @ filter Q (drop n K)"
    using filter_append [of Q "take n K" "drop n K"] by simp
  ultimately have "filter Q K = take n K @ filter Q (drop n K)" by simp
  then show ?thesis using assms(2) by simp
qed

lemma keys_mem: "x \<in> set (keys s) \<Longrightarrow> \<exists>g. map_of (sl_features s) x = Some g"
proof -
  have "x \<in> fst ` set xs \<Longrightarrow> \<exists>g. map_of xs x = Some g" for xs :: "(string \<times> feature) list"
    by (induction xs) auto
  then show "x \<in> set (keys s) \<Longrightarrow> \<exists>g. map_of (sl_features s) x = Some g"
    by (simp add: keys_def)
qed



lemma uniqD: "uniq sl a \<Longrightarrow> b \<in> set (keys sl) \<Longrightarrow> b \<noteq> a \<Longrightarrow> sgm sl b \<noteq> sgm sl a"
  by (unfold uniq_def, drule (1) bspec, erule (1) mp)

lemma collapse_loop_done:
  assumes "distinct (keys sl)" and "\<forall>x\<in>set (take i (sort (keys sl))). uniq sl x"
    and "\<not> int i < int (length (sl_features sl)) - 1"
  shows "\<forall>x\<in>set (keys sl). uniq sl x"
proof
  define K where "K = sort (keys sl)"
  define pre where "pre = take i K"
  define post where "post = drop i K"
  have sK: "set (keys sl) = set pre \<union> set post"
    using set_append [of "take i K" "drop i K"] by (simp add: K_def pre_def post_def)
  have short: "length post \<le> 1" using assms(3) by (simp add: post_def K_def keys_def)
  have pre: "uniq sl y" if "y \<in> set pre" for y
    using that assms(2) by (simp add: pre_def K_def)
  fix x assume x: "x \<in> set (keys sl)"
  show "uniq sl x"
  proof (cases "x \<in> set pre")
    case True
    then show ?thesis by (rule pre)
  next
    case False
    with x sK have "x \<in> set post" by blast
    with short have dx: "post = [x]" by (cases post) auto
    show ?thesis unfolding uniq_def
    proof (intro ballI impI)
      fix y assume y: "y \<in> set (keys sl)" and ne: "y \<noteq> x"
      with sK dx have "y \<in> set pre" by simp
      then have "uniq sl y" by (rule pre)
      then have "sgm sl x \<noteq> sgm sl y" using x ne by (intro uniqD) simp_all
      then show "sgm sl y \<noteq> sgm sl x" by simp
    qed
  qed
qed

lemma collapse_round_invariant:
  assumes d: "distinct (keys sl)" and inv: "\<forall>x\<in>set (take i (sort (keys sl))). uniq sl x"
    and guard: "int i < int (length (sl_features sl)) - 1"
    and ft: "map_of (sl_features sl) (sort (keys sl) ! i) = Some feature"
    and inner: "collapse_inner (sort (keys sl) ! i) feature (drop (i + 1) (sort (keys sl))) sl = Inr s1"
  shows "distinct (keys s1) \<and> (\<forall>x\<in>set (take (i + 1) (sort (keys s1))). uniq s1 x)"
proof -
  define K where "K = sort (keys sl)"
  define k where "k = K ! i"
  define pre where "pre = take i K"
  define os where "os = drop (i + 1) K"
  have iK: "i + 1 < length K" using guard by (simp add: K_def keys_def)
  have K_split: "K = pre @ k # os"
    using iK by (simp add: k_def os_def pre_def id_take_nth_drop)
  have "distinct K" using d by (simp add: K_def)
  then have dK: "distinct (pre @ k # os)" unfolding K_split .
  have sK: "set (keys sl) = set pre \<union> {k} \<union> set os"
  proof -
    have "set (keys sl) = set K" by (simp add: K_def)
    also have "\<dots> = set (pre @ k # os)" using K_split by simp
    finally show ?thesis by auto
  qed
  have kos: "k \<notin> set os" using dK by simp
  have pre: "uniq sl y" if "y \<in> set pre" for y
    using that inv by (simp add: pre_def K_def)
  have ft': "map_of (sl_features sl) k = Some feature" using ft by (simp add: k_def K_def)
  have inner': "collapse_inner k feature os sl = Inr s1"
    using inner by (simp add: k_def K_def os_def)
  have sk: "sgm sl k = Some (signature feature)" using ft' by (rule sgm_lookup)
  let ?gone = "\<lambda>x. x \<in> set os \<and> sgm sl x = Some (signature feature)"
  have keys1: "keys s1 = filter (\<lambda>x. \<not> ?gone x) (keys sl)"
    using collapse_inner_keys [OF inner' kos sk] .
  have sgm1: "sgm s1 x = (if ?gone x then None else sgm sl x)" for x
    using collapse_inner_sgm [OF inner' kos sk] .
  have d1: "distinct (keys s1)" using keys1 d by simp
  have "sort (keys s1) = filter (\<lambda>x. \<not> ?gone x) K"
    unfolding keys1 K_def by (simp add: filter_sort)
  moreover have "take (i + 1) (filter (\<lambda>x. \<not> ?gone x) K) = take (i + 1) K"
  proof (rule take_filter_later)
    show "distinct K" using d by (simp add: K_def)
    show "i + 1 \<le> length K" using iK by simp
    show "x \<in> set (drop (i + 1) K)" if "\<not> \<not> ?gone x" for x using that by (simp add: os_def)
  qed
  moreover have "take (i + 1) K = pre @ [k]"
    using iK by (simp add: k_def pre_def take_Suc_conv_app_nth)
  ultimately have tk: "take (i + 1) (sort (keys s1)) = pre @ [k]" by simp
  have "uniq s1 x" if x: "x \<in> set (pre @ [k])" for x
    unfolding uniq_def
  proof (intro ballI impI)
    fix y assume y1: "y \<in> set (keys s1)" and ne: "y \<noteq> x"
    have yk: "y \<in> set (keys sl)" and yg: "\<not> ?gone y" using y1 keys1 by auto
    have xnos: "x \<notin> set os" using x dK by auto
    then have sx: "sgm s1 x = sgm sl x" using sgm1 by simp
    have sy: "sgm s1 y = sgm sl y" using sgm1 yg by simp
    have "sgm sl y \<noteq> sgm sl x"
    proof (cases "x \<in> set pre")
      case True
      then have "uniq sl x" by (rule pre)
      then show ?thesis using yk ne by (rule uniqD)
    next
      case False
      with x have xk: "x = k" by simp
      from yk sK ne xk consider "y \<in> set pre" | "y \<in> set os" by blast
      then show ?thesis
      proof cases
        case 1
        then have "uniq sl y" by (rule pre)
        moreover have "x \<in> set (keys sl)" using xk sK by simp
        ultimately have "sgm sl x \<noteq> sgm sl y" using ne by (intro uniqD) simp_all
        then show ?thesis by simp
      next
        case 2
        with yg have "sgm sl y \<noteq> Some (signature feature)" by simp
        then show ?thesis using sk xk by simp
      qed
    qed
    then show "sgm s1 y \<noteq> sgm s1 x" using sx sy by simp
  qed
  then show ?thesis using d1 tk by simp
qed

lemma collapse_loop_cleans:
  "distinct (keys sl) \<Longrightarrow> \<forall>x\<in>set (take i (sort (keys sl))). uniq sl x \<Longrightarrow>
   collapse_loop i sl = Inr sl' \<Longrightarrow>
   distinct (keys sl') \<and> (\<forall>x\<in>set (keys sl'). uniq sl' x)"
proof (induction i sl rule: collapse_loop.induct)
  case (1 i sl)
  show ?case
  proof (cases "int i < int (length (sl_features sl)) - 1")
    case False
    then have "collapse_loop i sl = Inr sl" by (subst collapse_loop.simps) simp
    with "1.prems"(3) have same: "sl' = sl" by simp
    show ?thesis unfolding same
      using "1.prems"(1) collapse_loop_done [OF "1.prems"(1,2) False] by simp
  next
    case True
    define K where "K = sort (map fst (sl_features sl))"
    have KK: "K = sort (keys sl)" by (simp add: K_def keys_def)
    have "i < length K" using True by (simp add: K_def)
    then have "K ! i \<in> set K" by (rule nth_mem)
    then have "K ! i \<in> set (keys sl)" by (simp add: KK)
    then obtain feature where ft: "map_of (sl_features sl) (K ! i) = Some feature"
      using keys_mem by blast
    have step: "collapse_loop i sl = (case collapse_inner (K ! i) feature (drop (i + 1) K) sl of
        Inl e \<Rightarrow> Inl e | Inr s1 \<Rightarrow> collapse_loop (i + 1) s1)"
      apply (subst collapse_loop.simps)
      apply (simp only: True if_True Let_def K_def [symmetric] ft option.case)
      done
    with "1.prems"(3) obtain s1 where
      inner: "collapse_inner (K ! i) feature (drop (i + 1) K) sl = Inr s1" and
      rest: "collapse_loop (i + 1) s1 = Inr sl'"
      by (cases "collapse_inner (K ! i) feature (drop (i + 1) K) sl") simp_all
    have r: "distinct (keys s1) \<and> (\<forall>x\<in>set (take (i + 1) (sort (keys s1))). uniq s1 x)"
      using "1.prems"(1,2) True ft inner unfolding KK by (rule collapse_round_invariant)
    show ?thesis
      using "1.IH" [OF True K_def ft inner] r rest by blast
  qed
qed

lemma locus_dup_ingested:
  "add_gff_entries locus_g1 [sub_entry ''exon'' ''e1'' [''t1''] 1 100,
      sub_entry ''exon'' ''e2'' [''t1''] 1 100] = Inr locus_dup"
  by code_simp

lemma collapse_loop_noop:
  "distinct (keys sl) \<Longrightarrow> \<forall>x\<in>set (keys sl). uniq sl x \<Longrightarrow> collapse_loop i sl = Inr sl"
proof (induction i sl rule: collapse_loop.induct)
  case (1 i sl)
  show ?case
  proof (cases "int i < int (length (sl_features sl)) - 1")
    case False
    then show ?thesis by (subst collapse_loop.simps) simp
  next
    case True
    define K where "K = sort (map fst (sl_features sl))"
    have KK: "K = sort (keys sl)" by (simp add: K_def keys_def)
    have dK: "distinct K" using "1.prems"(1) by (simp add: KK)
    have iK: "i < length K" using True by (simp add: K_def)
    then have "K ! i \<in> set K" by (rule nth_mem)
    then have kk: "K ! i \<in> set (keys sl)" by (simp add: KK)
    then obtain feature where ft: "map_of (sl_features sl) (K ! i) = Some feature"
      using keys_mem by blast
    have sk: "sgm sl (K ! i) = Some (signature feature)" using ft by (rule sgm_lookup)
    have uk: "uniq sl (K ! i)" using "1.prems"(2) kk by simp
    have "K = take i K @ K ! i # drop (i + 1) K" using iK by (simp add: id_take_nth_drop)
    then have "distinct (take i K @ K ! i # drop (i + 1) K)" using dK by simp
    then have notin: "K ! i \<notin> set (drop (i + 1) K)" by simp
    have "\<exists>g. map_of (sl_features sl) o_key = Some g \<and> \<not> fully_overlaps feature g"
      if o: "o_key \<in> set (drop (i + 1) K)" for o_key
    proof -
      have "o_key \<in> set K" using o by (rule in_set_dropD)
      then have ok: "o_key \<in> set (keys sl)" by (simp add: KK)
      then obtain g where g: "map_of (sl_features sl) o_key = Some g" using keys_mem by blast
      have "o_key \<noteq> K ! i" using o notin by blast
      with uk ok have "sgm sl o_key \<noteq> sgm sl (K ! i)" by (rule uniqD)
      then have "signature g \<noteq> signature feature" using sgm_lookup [OF g] sk by simp
      then have "\<not> fully_overlaps feature g" by (simp add: fully_overlaps_signature)
      with g show ?thesis by blast
    qed
    then have inner: "collapse_inner (K ! i) feature (drop (i + 1) K) sl = Inr sl"
      by (intro collapse_inner_noop) blast
    have step: "collapse_loop i sl = (case collapse_inner (K ! i) feature (drop (i + 1) K) sl of
        Inl e \<Rightarrow> Inl e | Inr s1 \<Rightarrow> collapse_loop (i + 1) s1)"
      apply (subst collapse_loop.simps)
      apply (simp only: True if_True Let_def K_def [symmetric] ft option.case)
      done
    show ?thesis
      using "1.IH" [OF True K_def ft inner "1.prems"] step inner by simp
  qed
qed

text \<open>
  C8. The collapse is idempotent: when it returns for a locus (whose feature map has
  distinct keys, as a dict has), running it again on the result returns the very same
  locus, so the feature map and the links between transcripts and features are those of
  the first run. The first run leaves no two features that fully overlap, and on such a
  locus no round of the loop merges or removes anything.
\<close>

theorem collapse_identical_features_idempotent:
  assumes "distinct (map fst (sl_features sl))"
    and "collapse_identical_features sl = Inr sl'"
  shows "collapse_identical_features sl' = Inr sl'"
proof -
  have d: "distinct (keys sl)" using assms(1) by (simp add: keys_def)
  have i0: "\<forall>x\<in>set (take 0 (sort (keys sl))). uniq sl x" by simp
  have run: "collapse_loop 0 sl = Inr sl'"
    using assms(2) by (simp add: collapse_identical_features_def)
  from collapse_loop_cleans [OF d i0 run]
  have "distinct (keys sl')" and "\<forall>x\<in>set (keys sl'). uniq sl' x" by simp_all
  then have "collapse_loop 0 sl' = Inr sl'" by (rule collapse_loop_noop)
  then show ?thesis by (simp add: collapse_identical_features_def)
qed

theorem collapse_identical_features_idempotent_witness:
  "collapse_identical_features locus_dup = Inr locus_dup_collapsed
   \<and> collapse_identical_features locus_dup_collapsed = Inr locus_dup_collapsed"
proof -
  have d: "distinct (map fst (sl_features locus_dup))" by code_simp
  have run: "collapse_identical_features locus_dup = Inr locus_dup_collapsed" by code_simp
  show ?thesis using run collapse_identical_features_idempotent [OF d run] by simp
qed

section \<open>Properties of the reconstruction of exons\<close>

lemma locus_ftr_ingested:
  "add_gff_entries locus_g1 [sub_entry ''exon'' ''ftr000000'' [''t1''] 1 100,
      sub_entry ''five_prime_UTR'' ''u1'' [''t1''] 1 50,
      sub_entry ''CDS'' ''c1'' [''t1''] 150 200] = Inr locus_ftr"
  by code_simp

text \<open>
  When the ids of the new exons are distinct and none of them is a key of the feature
  map, the reconstruction does what its docstring says: every coding-info feature is in
  an exon afterwards.
\<close>

lemma link_features:
  "link_to_transcript_and_back t f s = Inr (f', s') \<Longrightarrow>
     sl_features s' = sl_features s \<and> f' = f\<lparr>f_transcripts := f_transcripts f @ [t]\<rparr>"
  by (auto simp: link_to_transcript_and_back_def split: owner.splits option.splits)

lemma clone_links_features:
  "clone_links ts new s = Inr (new', s') \<Longrightarrow>
     sl_features s' = sl_features s \<and> f_super_loci new' = f_super_loci new \<and> f_id new' = f_id new"
proof (induction ts arbitrary: new s)
  case Nil
  then show ?case by simp
next
  case (Cons t ts)
  from Cons.prems obtain n1 s1 where
    a: "link_to_transcript_and_back t new s = Inr (n1, s1)" and
    b: "clone_links ts n1 s1 = Inr (new', s')"
    by (auto split: sum.splits)
  show ?case using Cons.IH [OF b] link_features [OF a] by simp
qed

lemma reconstruct_exon_covers:
  assumes "reconstruct_exon f s = Inr (ex, s')"
  shows "sl_features s' = sl_features s \<and> f_type ex = exon \<and> is_contained_in f ex"
proof -
  from assms obtain c where c: "clone f True s = Inr (c, s')" and ex: "ex = c\<lparr>f_type := exon\<rparr>"
    by (auto simp: reconstruct_exon_def split: sum.splits)
  from c have own: "f_super_loci f = ThisLocus"
    by (auto simp: clone_def split: owner.splits)
  obtain i ider where nu: "next_unique_id None (feature_ider (sl_genome s)) = (i, ider)"
    by (cases "next_unique_id None (feature_ider (sl_genome s))") simp
  from c own nu obtain n1 where
    cl: "clone_links (f_transcripts f)
           (StructuredFeature\<lparr>f_super_loci := f_super_loci f, f_id := i\<rparr>)
           (s\<lparr>sl_genome := (sl_genome s)\<lparr>feature_ider := ider\<rparr>\<rparr>) = Inr (n1, s')" and
    cc: "c = n1\<lparr>f_type := f_type f, f_is_partial := f_is_partial f,
              f_is_reconstructed := f_is_reconstructed f,
              f_is_type_in_question := f_is_type_in_question f,
              f_start := f_start f, f_end := f_end f, f_seqid := f_seqid f,
              f_strand := f_strand f, f_frame := f_frame f, f_source := f_source f\<rparr>"
    by (auto simp: clone_def Let_def split: sum.splits)
  from clone_links_features [OF cl]
  have "sl_features s' = sl_features s" and "f_super_loci n1 = f_super_loci f" by simp_all
  then show ?thesis using ex cc by (simp add: is_contained_in_def)
qed

lemma reconstruct_loop_covers:
  assumes "reconstruct_loop exs fs acc s = Inr (new_exons, s')"
  shows "sl_features s' = sl_features s
     \<and> (\<exists>more. new_exons = acc @ more \<and> (\<forall>ex\<in>set more. f_type ex = exon)
          \<and> (\<forall>f\<in>set fs. list_ex (\<lambda>ex. is_contained_in f ex) exs
                \<or> (\<exists>ex\<in>set more. is_contained_in f ex)))"
  using assms
proof (induction fs arbitrary: acc s)
  case Nil
  then show ?case by simp
next
  case (Cons f fs)
  show ?case
  proof (cases "list_ex (\<lambda>ex. is_contained_in f ex) exs")
    case True
    with Cons.prems have r: "reconstruct_loop exs fs acc s = Inr (new_exons, s')" by simp
    from Cons.IH [OF r] obtain more where
      "sl_features s' = sl_features s" "new_exons = acc @ more" "\<forall>ex\<in>set more. f_type ex = exon"
      "\<forall>f\<in>set fs. list_ex (\<lambda>ex. is_contained_in f ex) exs \<or> (\<exists>ex\<in>set more. is_contained_in f ex)"
      by blast
    with True show ?thesis by auto
  next
    case False
    with Cons.prems obtain ex s1 where
      e: "reconstruct_exon f s = Inr (ex, s1)" and
      r: "reconstruct_loop exs fs (acc @ [ex]) s1 = Inr (new_exons, s')"
      by (auto split: sum.splits)
    from reconstruct_exon_covers [OF e]
    have e1: "sl_features s1 = sl_features s" and e2: "f_type ex = exon"
      and e3: "is_contained_in f ex" by simp_all
    from Cons.IH [OF r] obtain more where
      m1: "sl_features s' = sl_features s1" and m2: "new_exons = (acc @ [ex]) @ more"
      and m3: "\<forall>ex\<in>set more. f_type ex = exon"
      and m4: "\<forall>f\<in>set fs. list_ex (\<lambda>ex. is_contained_in f ex) exs
                 \<or> (\<exists>ex\<in>set more. is_contained_in f ex)"
      by blast
    have "new_exons = acc @ (ex # more)" using m2 by simp
    moreover have "\<forall>x\<in>set (ex # more). f_type x = exon" using e2 m3 by simp
    moreover have "\<forall>g\<in>set (f # fs). list_ex (\<lambda>ex. is_contained_in g ex) exs
                 \<or> (\<exists>x\<in>set (ex # more). is_contained_in g x)"
      using e3 m4 by auto
    ultimately show ?thesis using m1 e1 by (metis (no_types, lifting))
  qed
qed

lemma update_fresh: "k \<notin> fst ` set xs \<Longrightarrow> AList.update k v xs = xs @ [(k, v)]"
  by (induction xs) auto

lemma fold_update_fresh:
  "distinct (map f_id es) \<Longrightarrow> \<forall>e\<in>set es. f_id e \<notin> fst ` set F \<Longrightarrow>
     fold (\<lambda>e. AList.update (f_id e) e) es F = F @ map (\<lambda>e. (f_id e, e)) es"
proof (induction es arbitrary: F)
  case Nil
  then show ?case by simp
next
  case (Cons e es)
  have u: "AList.update (f_id e) e F = F @ [(f_id e, e)]"
    using Cons.prems(2) by (simp add: update_fresh)
  have "\<forall>x\<in>set es. f_id x \<notin> fst ` set (F @ [(f_id e, e)])"
  proof
    fix x assume x: "x \<in> set es"
    then have "f_id x \<in> f_id ` set es" by (rule imageI)
    moreover have "f_id e \<notin> f_id ` set es" using Cons.prems(1) by simp
    ultimately have "f_id x \<noteq> f_id e" by metis
    moreover have "f_id x \<notin> fst ` set F" using Cons.prems(2) x by simp
    ultimately show "f_id x \<notin> fst ` set (F @ [(f_id e, e)])" by simp
  qed
  with Cons.IH [of "F @ [(f_id e, e)]"] Cons.prems(1) u show ?case by simp
qed

lemma maybe_reconstruct_exons_covers:
  assumes run: "reconstruct_loop (exons sl) (coding_info_features sl) [] sl = Inr (new_exons, sl1)"
    and fresh: "\<forall>e\<in>set new_exons. f_id e \<notin> fst ` set (sl_features sl)"
    and dist: "distinct (map f_id new_exons)"
  shows "\<exists>sl'. maybe_reconstruct_exons sl = Inr sl' \<and> coding_contained sl'"
proof -
  from reconstruct_loop_covers [OF run]
  have F1: "sl_features sl1 = sl_features sl"
    and ty: "\<forall>ex\<in>set new_exons. f_type ex = exon"
    and cov: "\<forall>f\<in>set (coding_info_features sl). list_ex (\<lambda>ex. is_contained_in f ex) (exons sl)
                 \<or> (\<exists>ex\<in>set new_exons. is_contained_in f ex)"
    by auto
  define sl' where "sl' = sl1\<lparr>sl_features :=
      fold (\<lambda>e. AList.update (f_id e) e) new_exons (sl_features sl1)\<rparr>"
  have res: "maybe_reconstruct_exons sl = Inr sl'"
    using run by (simp add: maybe_reconstruct_exons_def sl'_def)
  have F': "sl_features sl' = sl_features sl @ map (\<lambda>e. (f_id e, e)) new_exons"
    using fold_update_fresh [OF dist fresh] by (simp add: sl'_def F1)
  have vals: "map snd (sl_features sl') = map snd (sl_features sl) @ new_exons"
    by (simp add: F' comp_def)
  have ex': "exons sl' = exons sl @ new_exons"
    using ty by (simp add: exons_def vals)
  have "exon \<notin> set coding_info" by (simp add: coding_info_def exon_def cds_def
      five_prime_UTR_def three_prime_UTR_def)
  then have "filter (\<lambda>f. f_type f \<in> set coding_info) new_exons = []"
    using ty by (auto simp: filter_empty_conv)
  then have ci': "coding_info_features sl' = coding_info_features sl"
    by (simp add: coding_info_features_def vals)
  have "coding_contained sl'"
    unfolding coding_contained_def ex' ci' list_all_iff
    using cov by (auto simp: list_ex_iff)
  with res show ?thesis by blast
qed

text \<open>
  C5. After \<open>maybe_reconstruct_exons\<close> every coding-info feature of the locus is claimed
  to be contained in an exon of the locus. The exon made for the uncovered CDS \<^verbatim>\<open>c1\<close>
  gets the first synthesized id of the allocator, \<^verbatim>\<open>ftr000000\<close>, which is the key of the
  exon read from the file: the assignment to the feature map replaces that exon, and the
  5' UTR \<^verbatim>\<open>u1\<close> that it covered is in no exon afterwards.
\<close>

theorem maybe_reconstruct_exons_overwrites_exon:
  "\<not> isl (maybe_reconstruct_exons locus_ftr)
   \<and> map (\<lambda>(k, f). (k, f_type f, f_start f, f_end f))
         (sl_features (projr (maybe_reconstruct_exons locus_ftr)))
       = [(''ftr000000'', ''exon'', 150, 200), (''u1'', ''five_prime_UTR'', 1, 50),
          (''c1'', ''CDS'', 150, 200)]
   \<and> \<not> coding_contained (projr (maybe_reconstruct_exons locus_ftr))"
  by code_simp

section \<open>Properties of the interval partitioner\<close>

lemma locus_two_cds_ingested:
  "add_gff_entries locus_g1 [sub_entry ''CDS'' ''a'' [''t1''] 1 100,
      sub_entry ''CDS'' ''b'' [''t1''] 50 150] = Inr locus_two_cds"
  by code_simp

text \<open>
  The function is its lookup of \<^verbatim>\<open>self.features\<close> followed by \<open>clusters_of\<close>.
\<close>

lemma organize_and_split_features_clusters_of:
  "organize_and_split_features self =
     (case lookup_features (ti_features self) (ti_super_loci self) of
        Inl e \<Rightarrow> ([], Some e)
      | Inr features \<Rightarrow> clusters_of features)"
  by (simp add: organize_and_split_features_def clusters_of_def split: sum.splits)

text \<open>
  The constructor leaves the list \<^verbatim>\<open>self.features\<close> empty, and it is this list, not the
  feature list of the transcript, that \<open>organize_and_split_features\<close> reads: on an
  interpreter as the constructor builds it, whatever the locus and the transcript, the
  tree stays empty and \<^verbatim>\<open>next(intervals)\<close> raises before any cluster is yielded.
\<close>

lemma organize_and_split_features_fresh:
  "organize_and_split_features (TranscriptInterpreter sl transcript) = ([], Some StopIteration)"
  by (simp add: organize_and_split_features_def TranscriptInterpreter_def split_overlaps_def
      boundaries_def sorted_tree_def)

text \<open>
  Had the list held the two features that the transcript \<^verbatim>\<open>t1\<close> links, the rest of the
  function would give the three clusters over bases 1-49, 50-100 and 101-150.
\<close>

lemma clusters_of_two_cds:
  "map bases (fst (clusters_of (map snd (sl_features locus_two_cds))))
     = [{(1, 49, ''a'')}, {(50, 100, ''a''), (50, 100, ''b'')}, {(101, 150, ''b'')}]
   \<and> snd (clusters_of (map snd (sl_features locus_two_cds))) = None"
  by code_simp

text \<open>
  The interval tree as modelled: after \<open>split_overlaps\<close>, on any tree, two stored
  intervals have the same extent or are disjoint.
\<close>

lemma consecutive_same_or_disjoint:
  assumes "sorted bs" and "(a, b) \<in> set (zip (butlast bs) (tl bs))"
    and "(c, d) \<in> set (zip (butlast bs) (tl bs))"
  shows "(a = c \<and> b = d) \<or> b \<le> c \<or> d \<le> (a::int)"
proof -
  from assms(2) obtain i where i: "i < length (butlast bs)" "butlast bs ! i = a" "tl bs ! i = b"
    by (auto simp: in_set_zip)
  from assms(3) obtain j where j: "j < length (butlast bs)" "butlast bs ! j = c" "tl bs ! j = d"
    by (auto simp: in_set_zip)
  have a: "a = bs ! i" and b: "b = bs ! (i + 1)" using i by (simp_all add: nth_butlast nth_tl)
  have c: "c = bs ! j" and d: "d = bs ! (j + 1)" using j by (simp_all add: nth_butlast nth_tl)
  have li: "i + 1 < length bs" and lj: "j + 1 < length bs" using i(1) j(1) by simp_all
  consider "i = j" | "i + 1 \<le> j" | "j + 1 \<le> i" by linarith
  then show ?thesis
  proof cases
    case 1
    then show ?thesis using a b c d by simp
  next
    case 2
    have "bs ! (i + 1) \<le> bs ! j" using assms(1) 2 lj by (intro sorted_nth_mono) simp_all
    then show ?thesis using b c by simp
  next
    case 3
    have "bs ! (j + 1) \<le> bs ! i" using assms(1) 3 li by (intro sorted_nth_mono) simp_all
    then show ?thesis using a d by simp
  qed
qed

lemma split_overlaps_extent:
  "x \<in> set (split_overlaps tree) \<Longrightarrow>
     (iv_begin x, iv_end x) \<in> set (zip (butlast (boundaries tree)) (tl (boundaries tree)))"
  by (auto simp: split_overlaps_def Let_def)

lemma split_overlaps_same_or_disjoint:
  assumes "x \<in> set (split_overlaps tree)" and "y \<in> set (split_overlaps tree)"
  shows "same_or_disjoint x y"
proof -
  have "sorted (boundaries tree)" by (simp add: boundaries_def)
  then show ?thesis
    unfolding same_or_disjoint_def
    using split_overlaps_extent [OF assms(1)] split_overlaps_extent [OF assms(2)]
    by (rule consecutive_same_or_disjoint)
qed

text \<open>
  C4. Two CDS features over 1-100 and 50-150 of one sequence and strand, linked to a
  transcript, are claimed to give three clusters. The interpreter of that transcript,
  built by its constructor on the locus ingested from the two records, yields no
  cluster: \<open>organize_and_split_features\<close> reads the empty list \<^verbatim>\<open>self.features\<close> and ends
  with the exception of \<^verbatim>\<open>next\<close> on an empty iterator.
\<close>

theorem organize_and_split_features_no_cluster:
  "organize_and_split_features (TranscriptInterpreter locus_two_cds (Some ''t1''))
     = ([], Some StopIteration)"
  by code_simp

section \<open>Properties of the transition interpreter\<close>

text \<open>
  Whatever the status and the clusters, a call of \<open>interpret_transition\<close> that returns has
  made no feature and changed nothing: the comparison of the pair \<open>status_in\<close> with a
  string is never true, so neither branch of the 5' UTR status is entered.
\<close>

lemma interpret_transition_inert:
  "interpret_transition sl last_feature pre b a ps = Inr (fs, sl') \<Longrightarrow> fs = [] \<and> sl' = sl"
  by (auto simp: interpret_transition_def Let_def split: sum.splits prod.splits)

text \<open>
  C6. In the 5' UTR status, with a 5' UTR cluster before and a CDS cluster after, the
  transition is claimed to make one start codon when the two features are adjacent, and
  to fail when there is a gap between them. The call returns the empty list in both
  cases: after a TSS (status \<^verbatim>\<open>status_five_prime_UTR\<close>) and after an acceptor splice site
  with the remembered status \<^verbatim>\<open>five_prime_UTR\<close>, for the 5' UTR 1-10 followed by the CDS
  11-20, and for the same 5' UTR followed by the CDS 31-40.
\<close>

theorem interpret_transition_no_start_codon:
  "interpret_transition locus_g1 (emitted TSS) status_five_prime_UTR
       (cluster_of five_prime_UTR ''u1'' 1 10) (cluster_of cds ''c1'' 11 20) True
     = Inr ([], locus_g1)
   \<and> interpret_transition locus_g1 (emitted acceptor_splice_site) five_prime_UTR
       (cluster_of five_prime_UTR ''u1'' 1 10) (cluster_of cds ''c1'' 11 20) True
     = Inr ([], locus_g1)
   \<and> interpret_transition locus_g1 (emitted TSS) status_five_prime_UTR
       (cluster_of five_prime_UTR ''u1'' 1 10) (cluster_of cds ''c1'' 31 40) True
     = Inr ([], locus_g1)"
  by code_simp

text \<open>
  C7. In the 5' UTR status, with a 5' UTR cluster before and after, the transition is
  claimed to make a donor and an acceptor splice site when there is a gap between the two
  features, and to fail when there is none. The call returns the empty list for the
  5' UTR 1-10 followed by the 5' UTR 21-30, after a TSS and after an acceptor splice
  site, and it returns the empty list, without failing, for the 5' UTR 1-10 followed by
  the contiguous 5' UTR 11-20.
\<close>

theorem interpret_transition_no_splice_sites:
  "interpret_transition locus_g1 (emitted TSS) status_five_prime_UTR
       (cluster_of five_prime_UTR ''u1'' 1 10) (cluster_of five_prime_UTR ''u2'' 21 30) True
     = Inr ([], locus_g1)
   \<and> interpret_transition locus_g1 (emitted acceptor_splice_site) five_prime_UTR
       (cluster_of five_prime_UTR ''u1'' 1 10) (cluster_of five_prime_UTR ''u2'' 21 30) True
     = Inr ([], locus_g1)
   \<and> interpret_transition locus_g1 (emitted TSS) status_five_prime_UTR
       (cluster_of five_prime_UTR ''u1'' 1 10) (cluster_of five_prime_UTR ''u2'' 11 20) True
     = Inr ([], locus_g1)"
  by code_simp

end
